theory Spec2Isabelle
  imports Main "HOL-Library.Monad_Syntax" "HOL-Library.Word"
begin

section \<open>The mp3codec~ external: data model\<close>

text \<open>
  A shallow embedding of \<^verbatim>\<open>mp3codec~.c\<close>. The object \<^verbatim>\<open>t_mp3codec\<close> is a record, every C
  function is a HOL function that takes the object and returns it updated. A pointer is an
  \<open>option\<close> (\<open>None\<close> is NULL, \<open>Some xs\<close> an allocated array with its contents). A computation
  that would read or write outside an array, or through a NULL pointer, has the value
  \<open>None\<close>: undefined behaviour of the C program is never given a meaning.

  C \<^verbatim>\<open>int\<close> and \<^verbatim>\<open>long\<close> values are mathematical integers: the fill levels, cursors and
  counts of this program stay far below \<open>2^31\<close>. A \<^verbatim>\<open>short\<close> sample is an \<open>int\<close> as well.
  Floating point is left abstract: \<open>'d\<close> is \<^verbatim>\<open>double\<close>, \<open>'f\<close> is \<^verbatim>\<open>float\<close>, and the few
  operations the program applies to them are fields of the environment below, about which
  nothing is assumed. The LAME library is abstract in the same way: \<open>'e\<close> is the state
  behind a \<^verbatim>\<open>lame_global_flags *\<close>, \<open>'h\<close> the state behind a \<^verbatim>\<open>hip_t\<close>.
  A library function is a function of its arguments and of the state behind the handle;
  \<^verbatim>\<open>lame_close\<close> and \<^verbatim>\<open>hip_decode_exit\<close> only drop the handle.
  The calls of \<^verbatim>\<open>post\<close> (console information) and \<^verbatim>\<open>systhread_sleep\<close> and the static
  \<^verbatim>\<open>debug_counter\<close>, which only paces \<^verbatim>\<open>post\<close>, have no counterpart; the calls of
  \<^verbatim>\<open>error\<close> are kept as a log. The check \<^verbatim>\<open>if (!x)\<close> at the head of a function has no
  counterpart either: the object is there. Every function runs to its end before the next
  one starts: the audio thread and the control thread are not interleaved.
\<close>

type_synonym byte = "8 word"

definition MP3_FRAME_SIZE :: int where
  "MP3_FRAME_SIZE = 1152"

definition MP3_BUFFER_SIZE :: int where
  "MP3_BUFFER_SIZE = 8192"

definition PCM_BUFFER_SIZE :: int where
  "PCM_BUFFER_SIZE = MP3_FRAME_SIZE * 4"

definition DECODE_BUFFER_SIZE :: int where
  "DECODE_BUFFER_SIZE = 16384"

definition QUALITY_BITRATES :: "int list" where
  "QUALITY_BITRATES = [320, 256, 192, 160, 128, 112, 96, 64, 40, 32]"

datatype mpeg_mode = STEREO | JOINT_STEREO | MONO

text \<open>One constructor for each \<^verbatim>\<open>lame_set_...\<close> function the initializer calls.\<close>

datatype lame_setting =
    Num_channels int
  | In_samplerate int
  | Out_samplerate int
  | VBR_off
  | Brate int
  | Quality int
  | Mode mpeg_mode
  | Force_ms int
  | ATHonly int
  | ATHshort int
  | No_short_blocks int
  | Emphasis int
  | ExperimentalX int
  | ExperimentalY int
  | Lowpassfreq int
  | Highpassfreq int
  | Disable_reservoir int

text \<open>The lines written with \<^verbatim>\<open>error(...)\<close>, one constructor for each call site.\<close>

datatype message =
    Err_lame_init
  | Err_fallback_failed
  | Err_set_params int
  | Err_hip_init
  | Err_change_quality int
  | Err_restore_quality
  | Err_reset_failed

text \<open>An atom of a Max list (\<^verbatim>\<open>atom_setfloat\<close>, \<^verbatim>\<open>atom_setlong\<close>).\<close>

datatype 'd atom = A_FLOAT 'd | A_LONG int

text \<open>
  The environment: the floating-point operations of the platform and the functions of the
  LAME library. \<open>lame_encode_buffer g l r\<close> is the call on the handle state \<open>g\<close> with the two
  PCM arrays of \<open>MP3_FRAME_SIZE\<close> samples; it gives the return value, the bytes it wrote to
  the start of \<^verbatim>\<open>mp3_buffer\<close>, and the new state. \<open>hip_decode h bytes\<close> is the call on the
  first \<^verbatim>\<open>mp3_accumulator_fill\<close> bytes of the accumulator; it gives the return value, the
  samples it wrote to the start of \<^verbatim>\<open>decode_pcm_left\<close> and \<^verbatim>\<open>decode_pcm_right\<close>, and
  the new state.
\<close>

record ('d, 'f, 'e, 'h) env =
  d_zero :: 'd
  f_zero :: 'f
  d_mul :: "'d \<Rightarrow> 'd \<Rightarrow> 'd"
  d_to_float :: "'d \<Rightarrow> 'f"
  f_mul_d :: "'f \<Rightarrow> 'd \<Rightarrow> 'd"
  f_scale_to_int :: "'f \<Rightarrow> int"
  short_div :: "int \<Rightarrow> 'f"
  ms_of_samples :: "int \<Rightarrow> int \<Rightarrow> 'd"
  lame_init :: "'e option"
  lame_set :: "lame_setting \<Rightarrow> 'e \<Rightarrow> 'e"
  lame_init_params :: "'e \<Rightarrow> int \<times> 'e"
  lame_get_encoder_delay :: "'e \<Rightarrow> int"
  lame_encode_buffer :: "'e \<Rightarrow> int list \<Rightarrow> int list \<Rightarrow> int \<times> byte list \<times> 'e"
  hip_decode_init :: "'h option"
  hip_decode :: "'h \<Rightarrow> byte list \<Rightarrow> int \<times> int list \<times> int list \<times> 'h"

text \<open>
  The object. \<open>analysis_outlet\<close> and \<open>status_outlet\<close> say whether the outlet pointer is
  non-NULL. \<open>max_console\<close> is not a field of the C struct: it is the list of \<^verbatim>\<open>error\<close>
  lines written to the Max console so far.
\<close>

record ('d, 'f, 'e, 'h) mp3codec =
  gfp :: "'e option"
  hip :: "'h option"
  quality :: int
  input_gain :: 'd
  output_gain :: 'd
  bypass :: int
  enable_lowpass :: int
  enable_highpass :: int
  enable_ms_stereo :: int
  enable_ath_only :: int
  enable_experimental :: int
  enable_emphasis :: int
  sample_rate :: int
  channels :: int
  initialized :: int
  encode_buffer_left :: "'f list option"
  encode_buffer_right :: "'f list option"
  encode_buffer_fill :: int
  mp3_accumulator :: "byte list option"
  mp3_accumulator_fill :: int
  decode_pcm_left :: "int list option"
  decode_pcm_right :: "int list option"
  output_ring_left :: "'f list option"
  output_ring_right :: "'f list option"
  ring_write_pos :: int
  ring_read_pos :: int
  ring_size :: int
  total_latency_samples :: int
  total_latency_ms :: 'd
  lame_encoder_delay :: int
  lame_decoder_delay :: int
  buffer_latency_samples :: int
  decode_delay_compensation :: int
  analysis_outlet :: bool
  status_outlet :: bool
  max_console :: "message list"

section \<open>Arrays, loops and helpers\<close>

text \<open>\<^verbatim>\<open>a[i]\<close> as a value and \<^verbatim>\<open>a[i] = v\<close>: defined inside the array only.\<close>

definition array_read :: "'a list \<Rightarrow> int \<Rightarrow> 'a option" where
  "array_read xs i = (if 0 \<le> i \<and> i < int (length xs) then Some (xs ! nat i) else None)"

definition array_write :: "'a list \<Rightarrow> int \<Rightarrow> 'a \<Rightarrow> 'a list option" where
  "array_write xs i v = (if 0 \<le> i \<and> i < int (length xs) then Some (xs[nat i := v]) else None)"

text \<open>\<^verbatim>\<open>memcpy(dst + off, src, n)\<close>: defined when both ranges lie inside their arrays.\<close>

definition memcpy :: "'a list \<Rightarrow> int \<Rightarrow> 'a list \<Rightarrow> int \<Rightarrow> 'a list option" where
  "memcpy dst off src n =
     (if 0 \<le> off \<and> 0 \<le> n \<and> n \<le> int (length src) \<and> off + n \<le> int (length dst)
      then Some (take (nat off) dst @ take (nat n) src @ drop (nat (off + n)) dst)
      else None)"

text \<open>A library call that writes \<open>new\<close> to the start of the array \<open>buf\<close>.\<close>

definition store_prefix :: "'a list \<Rightarrow> 'a list \<Rightarrow> 'a list option" where
  "store_prefix buf new =
     (if length new \<le> length buf then Some (new @ drop (length new) buf) else None)"

text \<open>
  \<^verbatim>\<open>sysmem_newptrclear\<close>: a fresh array of \<open>n\<close> cleared elements. The allocation is taken
  to succeed, as the source takes it (it does not check the pointer).
\<close>

definition sysmem_newptrclear :: "int \<Rightarrow> 'a \<Rightarrow> 'a list option" where
  "sysmem_newptrclear n z = Some (replicate (nat n) z)"

text \<open>
  Modelled from the spec: the macro \<^verbatim>\<open>CLAMP\<close> of the Max SDK headers, which are not
  part of the repository (the spec gives the quality ordinal the range 0 to 9).
\<close>

definition CLAMP :: "int \<Rightarrow> int \<Rightarrow> int \<Rightarrow> int" where
  "CLAMP a lo hi = (if a > lo then (if a < hi then a else hi) else lo)"

declare Option.bind_cong [fundef_cong]

text \<open>\<^verbatim>\<open>for (i = i0; i < n; i++) body\<close>, for a body that neither breaks nor returns.\<close>

function for_loop :: "int \<Rightarrow> int \<Rightarrow> (int \<Rightarrow> 's \<Rightarrow> 's option) \<Rightarrow> 's \<Rightarrow> 's option" where
  "for_loop i n body s =
     (if i < n then do { s' \<leftarrow> body i s; for_loop (i + 1) n body s' } else Some s)"
  by pat_completeness auto
termination
  by (relation "measure (\<lambda>(i, n, body, s). nat (n - i))") auto

declare for_loop.simps [simp del]

definition float_to_short :: "('d, 'f, 'e, 'h) env \<Rightarrow> 'f \<Rightarrow> int" where
  "float_to_short E sample =
     (let v = f_scale_to_int E sample;
          v = (if v > 32767 then 32767 else v);
          v = (if v < - 32768 then - 32768 else v)
      in v)"

definition short_to_float :: "('d, 'f, 'e, 'h) env \<Rightarrow> int \<Rightarrow> 'f" where
  "short_to_float E sample = short_div E sample"

definition log_error ::
  "message \<Rightarrow> ('d, 'f, 'e, 'h) mp3codec \<Rightarrow> ('d, 'f, 'e, 'h) mp3codec" where
  "log_error m x = x\<lparr>max_console := max_console x @ [m]\<rparr>"

section \<open>Initialization and teardown\<close>

definition mp3codec_cleanup_processor ::
  "('d, 'f, 'e, 'h) mp3codec \<Rightarrow> ('d, 'f, 'e, 'h) mp3codec" where
  "mp3codec_cleanup_processor x =
     x\<lparr>initialized := 0,
       gfp := None,
       hip := None,
       encode_buffer_left := None,
       encode_buffer_right := None,
       mp3_accumulator := None,
       decode_pcm_left := None,
       decode_pcm_right := None,
       output_ring_left := None,
       output_ring_right := None,
       encode_buffer_fill := 0,
       mp3_accumulator_fill := 0,
       ring_write_pos := 0,
       ring_read_pos := 0\<rparr>"

text \<open>
  The calls of \<^verbatim>\<open>lame_set_...\<close> between \<^verbatim>\<open>lame_init\<close> and \<^verbatim>\<open>lame_init_params\<close>, in
  the order of the source; \<open>brate\<close> is \<^verbatim>\<open>QUALITY_BITRATES[x->quality]\<close>.
\<close>

definition lame_configure ::
  "('d, 'f, 'e, 'h) env \<Rightarrow> ('d, 'f, 'e, 'h) mp3codec \<Rightarrow> int \<Rightarrow> 'e \<Rightarrow> 'e" where
  "lame_configure E x brate g =
     fold (lame_set E)
       ([Num_channels (channels x), In_samplerate (sample_rate x),
         Out_samplerate (sample_rate x), VBR_off, Brate brate, Quality (quality x),
         Mode (if brate \<le> 128 then JOINT_STEREO
               else if channels x = 2 then STEREO else MONO)]
        @ (if enable_ms_stereo x \<noteq> 0 then [Force_ms 1] else [])
        @ (if enable_ath_only x \<noteq> 0 then [ATHonly 1, ATHshort 1, No_short_blocks 0] else [])
        @ (if enable_emphasis x \<noteq> 0 then [Emphasis 1] else [])
        @ (if enable_experimental x \<noteq> 0 then [ExperimentalX 9, ExperimentalY 1] else [])
        @ (if enable_lowpass x \<noteq> 0
           then [Lowpassfreq (if brate \<le> 32 then 4000 else if brate \<le> 64 then 6000 else 8000)]
           else [])
        @ (if enable_highpass x \<noteq> 0 then [Highpassfreq 100] else [])
        @ [Disable_reservoir 1])
       g"

text \<open>
  The second half of \<^verbatim>\<open>mp3codec_init_processor\<close>, from \<^verbatim>\<open>hip_decode_init\<close> on, with the
  configured encoder \<open>g\<close>: the decoder, the buffers, the cursors and the latency figures.
\<close>

definition init_decoder_and_buffers ::
  "('d, 'f, 'e, 'h) env \<Rightarrow> ('d, 'f, 'e, 'h) mp3codec \<Rightarrow> 'e \<Rightarrow> int \<times> ('d, 'f, 'e, 'h) mp3codec" where
  "init_decoder_and_buffers E x g =
     (case hip_decode_init E of
        None \<Rightarrow> (- 1, log_error Err_hip_init (x\<lparr>gfp := None\<rparr>))
      | Some h \<Rightarrow>
          (let x = x\<lparr>gfp := Some g, hip := Some h\<rparr>;
               x = x\<lparr>encode_buffer_left := sysmem_newptrclear PCM_BUFFER_SIZE (f_zero E),
                      encode_buffer_right := sysmem_newptrclear PCM_BUFFER_SIZE (f_zero E),
                      mp3_accumulator := sysmem_newptrclear DECODE_BUFFER_SIZE 0,
                      decode_pcm_left := sysmem_newptrclear PCM_BUFFER_SIZE 0,
                      decode_pcm_right := sysmem_newptrclear PCM_BUFFER_SIZE 0\<rparr>;
               x = x\<lparr>ring_size := MP3_FRAME_SIZE * 4\<rparr>;
               x = x\<lparr>output_ring_left := sysmem_newptrclear (ring_size x) (f_zero E),
                      output_ring_right := sysmem_newptrclear (ring_size x) (f_zero E)\<rparr>;
               x = x\<lparr>encode_buffer_fill := 0,
                      mp3_accumulator_fill := 0,
                      ring_write_pos := 0,
                      ring_read_pos := 0\<rparr>;
               x = x\<lparr>lame_encoder_delay := lame_get_encoder_delay E g,
                      lame_decoder_delay := 528,
                      buffer_latency_samples := MP3_FRAME_SIZE\<rparr>;
               x = x\<lparr>total_latency_samples :=
                        lame_encoder_delay x + lame_decoder_delay x + buffer_latency_samples x\<rparr>;
               x = x\<lparr>total_latency_ms :=
                        ms_of_samples E (total_latency_samples x) (sample_rate x),
                      decode_delay_compensation := 0\<rparr>;
               x = x\<lparr>initialized := 1\<rparr>
           in (0, x)))"

text \<open>
  \<^verbatim>\<open>mp3codec_init_processor\<close>: the return value and the object. The result is \<open>None\<close> only
  when \<^verbatim>\<open>x->quality\<close> lies outside \<^verbatim>\<open>QUALITY_BITRATES\<close>.
\<close>

definition mp3codec_init_processor ::
  "('d, 'f, 'e, 'h) env \<Rightarrow> ('d, 'f, 'e, 'h) mp3codec \<Rightarrow> (int \<times> ('d, 'f, 'e, 'h) mp3codec) option" where
  "mp3codec_init_processor E x0 =
     (let x = mp3codec_cleanup_processor x0 in
      case lame_init E of
        None \<Rightarrow> Some (- 1, log_error Err_lame_init x)
      | Some g0 \<Rightarrow> do {
          brate \<leftarrow> array_read QUALITY_BITRATES (quality x);
          let g = lame_configure E x brate g0;
          let (r, g) = lame_init_params E g;
          if r < 0 then
            (if brate \<le> 16 then
               (let g = lame_set E (Brate 32) g;
                    g = lame_set E (Lowpassfreq 6000) g;
                    (r, g) = lame_init_params E g
                in if r < 0 then Some (- 1, log_error Err_fallback_failed (x\<lparr>gfp := None\<rparr>))
                   else Some (init_decoder_and_buffers E x g))
             else Some (- 1, log_error (Err_set_params brate) (x\<lparr>gfp := None\<rparr>)))
          else Some (init_decoder_and_buffers E x g)
        })"

section \<open>Control messages\<close>

definition mp3codec_quality ::
  "('d, 'f, 'e, 'h) env \<Rightarrow> ('d, 'f, 'e, 'h) mp3codec \<Rightarrow> int \<Rightarrow> ('d, 'f, 'e, 'h) mp3codec option" where
  "mp3codec_quality E x n =
     (let x = x\<lparr>initialized := 0\<rparr>;
          old_quality = quality x;
          x = x\<lparr>quality := CLAMP n 0 9\<rparr>
      in if old_quality \<noteq> quality x then do {
           (r, x) \<leftarrow> mp3codec_init_processor E x;
           if r < 0 then do {
             let x = log_error (Err_change_quality (quality x)) x;
             let x = x\<lparr>quality := old_quality\<rparr>;
             (r, x) \<leftarrow> mp3codec_init_processor E x;
             if r < 0 then Some (log_error Err_restore_quality x) else Some x
           } else Some x
         } else Some (x\<lparr>initialized := 1\<rparr>))"

definition mp3codec_bypass ::
  "('d, 'f, 'e, 'h) mp3codec \<Rightarrow> int \<Rightarrow> ('d, 'f, 'e, 'h) mp3codec" where
  "mp3codec_bypass x n = x\<lparr>bypass := (if n \<noteq> 0 then 1 else 0)\<rparr>"

definition mp3codec_reset ::
  "('d, 'f, 'e, 'h) env \<Rightarrow> ('d, 'f, 'e, 'h) mp3codec \<Rightarrow> ('d, 'f, 'e, 'h) mp3codec option" where
  "mp3codec_reset E x =
     (let x = x\<lparr>initialized := 0\<rparr> in do {
        (r, x) \<leftarrow> mp3codec_init_processor E x;
        if r < 0 then Some (log_error Err_reset_failed x) else Some x
      })"


definition mp3codec_highpass ::
  "('d, 'f, 'e, 'h) env \<Rightarrow> ('d, 'f, 'e, 'h) mp3codec \<Rightarrow> int \<Rightarrow> ('d, 'f, 'e, 'h) mp3codec option" where
  "mp3codec_highpass E x n =
     (let x = x\<lparr>enable_highpass := (if n \<noteq> 0 then 1 else 0)\<rparr>;
          x = x\<lparr>initialized := 0\<rparr>
      in do { (r, x) \<leftarrow> mp3codec_init_processor E x; Some x })"

definition mp3codec_msstereo ::
  "('d, 'f, 'e, 'h) env \<Rightarrow> ('d, 'f, 'e, 'h) mp3codec \<Rightarrow> int \<Rightarrow> ('d, 'f, 'e, 'h) mp3codec option" where
  "mp3codec_msstereo E x n =
     (let x = x\<lparr>enable_ms_stereo := (if n \<noteq> 0 then 1 else 0)\<rparr>;
          x = x\<lparr>initialized := 0\<rparr>
      in do { (r, x) \<leftarrow> mp3codec_init_processor E x; Some x })"

definition mp3codec_athonly ::
  "('d, 'f, 'e, 'h) env \<Rightarrow> ('d, 'f, 'e, 'h) mp3codec \<Rightarrow> int \<Rightarrow> ('d, 'f, 'e, 'h) mp3codec option" where
  "mp3codec_athonly E x n =
     (let x = x\<lparr>enable_ath_only := (if n \<noteq> 0 then 1 else 0)\<rparr>;
          x = x\<lparr>initialized := 0\<rparr>
      in do { (r, x) \<leftarrow> mp3codec_init_processor E x; Some x })"

definition mp3codec_experimental ::
  "('d, 'f, 'e, 'h) env \<Rightarrow> ('d, 'f, 'e, 'h) mp3codec \<Rightarrow> int \<Rightarrow> ('d, 'f, 'e, 'h) mp3codec option" where
  "mp3codec_experimental E x n =
     (let x = x\<lparr>enable_experimental := (if n \<noteq> 0 then 1 else 0)\<rparr>;
          x = x\<lparr>initialized := 0\<rparr>
      in do { (r, x) \<leftarrow> mp3codec_init_processor E x; Some x })"

definition mp3codec_emphasis ::
  "('d, 'f, 'e, 'h) env \<Rightarrow> ('d, 'f, 'e, 'h) mp3codec \<Rightarrow> int \<Rightarrow> ('d, 'f, 'e, 'h) mp3codec option" where
  "mp3codec_emphasis E x n =
     (let x = x\<lparr>enable_emphasis := (if n \<noteq> 0 then 1 else 0)\<rparr>;
          x = x\<lparr>initialized := 0\<rparr>
      in do { (r, x) \<leftarrow> mp3codec_init_processor E x; Some x })"

text \<open>
  \<^verbatim>\<open>mp3codec_dsp64\<close>, the part that changes the object; \<open>samplerate\<close> is the host's rate
  after the cast to \<^verbatim>\<open>long\<close>.
\<close>

definition mp3codec_dsp64 ::
  "('d, 'f, 'e, 'h) env \<Rightarrow> ('d, 'f, 'e, 'h) mp3codec \<Rightarrow> int \<Rightarrow> ('d, 'f, 'e, 'h) mp3codec option" where
  "mp3codec_dsp64 E x samplerate =
     (if sample_rate x \<noteq> samplerate then
        (let x = x\<lparr>sample_rate := samplerate\<rparr>
         in do { (r, x) \<leftarrow> mp3codec_init_processor E x; Some x })
      else Some x)"

text \<open>
  \<^verbatim>\<open>mp3codec_latency\<close>: the lists sent to the analysis outlet with \<^verbatim>\<open>outlet_list\<close>
  (none, or one list of four atoms).
\<close>

definition mp3codec_latency :: "('d, 'f, 'e, 'h) mp3codec \<Rightarrow> 'd atom list list" where
  "mp3codec_latency x =
     (if initialized x = 0 then []
      else if analysis_outlet x then
        [[A_FLOAT (total_latency_ms x), A_LONG (total_latency_samples x),
          A_LONG (lame_encoder_delay x), A_LONG (lame_decoder_delay x)]]
      else [])"

section \<open>The perform routine\<close>

text \<open>
  The body of the copy loop: one sample of each channel, scaled by the input gain, goes
  to the encode buffers at offset \<^verbatim>\<open>encode_buffer_fill + i\<close>.
\<close>

definition copy_sample ::
  "('d, 'f, 'e, 'h) env \<Rightarrow> 'd list \<times> 'd list \<Rightarrow> int \<Rightarrow> int \<Rightarrow>
   ('d, 'f, 'e, 'h) mp3codec \<Rightarrow> ('d, 'f, 'e, 'h) mp3codec option" where
  "copy_sample E ins samples_processed i x = do {
     bl \<leftarrow> encode_buffer_left x;
     l \<leftarrow> array_read (fst ins) (samples_processed + i);
     bl \<leftarrow> array_write bl (encode_buffer_fill x + i) (d_to_float E (d_mul E l (input_gain x)));
     let x = x\<lparr>encode_buffer_left := Some bl\<rparr>;
     br \<leftarrow> encode_buffer_right x;
     r \<leftarrow> array_read (snd ins) (samples_processed + i);
     br \<leftarrow> array_write br (encode_buffer_fill x + i) (d_to_float E (d_mul E r (input_gain x)));
     Some (x\<lparr>encode_buffer_right := Some br\<rparr>)
   }"

text \<open>The body of the conversion loop, on the local arrays \<^verbatim>\<open>pcm_left\<close>, \<^verbatim>\<open>pcm_right\<close>.\<close>

definition convert_sample ::
  "('d, 'f, 'e, 'h) env \<Rightarrow> ('d, 'f, 'e, 'h) mp3codec \<Rightarrow> int \<Rightarrow>
   int list \<times> int list \<Rightarrow> (int list \<times> int list) option" where
  "convert_sample E x i pcm = do {
     bl \<leftarrow> encode_buffer_left x;
     l \<leftarrow> array_read bl i;
     pcm_left \<leftarrow> array_write (fst pcm) i (float_to_short E l);
     br \<leftarrow> encode_buffer_right x;
     r \<leftarrow> array_read br i;
     pcm_right \<leftarrow> array_write (snd pcm) i (float_to_short E r);
     Some (pcm_left, pcm_right)
   }"

text \<open>
  Appending the encoder's bytes to the byte accumulator: the \<^verbatim>\<open>memcpy\<close> and the new fill
  when they fit, nothing otherwise.
\<close>

definition accumulate_chunk ::
  "('d, 'f, 'e, 'h) mp3codec \<Rightarrow> byte list \<Rightarrow> int \<Rightarrow> ('d, 'f, 'e, 'h) mp3codec option" where
  "accumulate_chunk x mp3_buffer mp3_bytes =
     (if mp3_accumulator_fill x + mp3_bytes < DECODE_BUFFER_SIZE then do {
        acc \<leftarrow> mp3_accumulator x;
        acc \<leftarrow> memcpy acc (mp3_accumulator_fill x) mp3_buffer mp3_bytes;
        let x = x\<lparr>mp3_accumulator := Some acc\<rparr>;
        Some (x\<lparr>mp3_accumulator_fill := mp3_accumulator_fill x + mp3_bytes\<rparr>)
      } else Some x)"

text \<open>The body of the loop that moves decoded samples to the ring buffer.\<close>

definition ring_write_sample ::
  "('d, 'f, 'e, 'h) env \<Rightarrow> int \<Rightarrow> ('d, 'f, 'e, 'h) mp3codec \<Rightarrow> ('d, 'f, 'e, 'h) mp3codec option" where
  "ring_write_sample E i x = do {
     rl \<leftarrow> output_ring_left x;
     dl \<leftarrow> decode_pcm_left x;
     l \<leftarrow> array_read dl i;
     rl \<leftarrow> array_write rl (ring_write_pos x) (short_to_float E l);
     let x = x\<lparr>output_ring_left := Some rl\<rparr>;
     rr \<leftarrow> output_ring_right x;
     dr \<leftarrow> decode_pcm_right x;
     r \<leftarrow> array_read dr i;
     rr \<leftarrow> array_write rr (ring_write_pos x) (short_to_float E r);
     let x = x\<lparr>output_ring_right := Some rr\<rparr>;
     let x = x\<lparr>ring_write_pos := ring_write_pos x + 1\<rparr>;
     Some (if ring_write_pos x \<ge> ring_size x then x\<lparr>ring_write_pos := 0\<rparr> else x)
   }"

text \<open>
  The single decode attempt after an encode that produced bytes: the call of
  \<^verbatim>\<open>hip_decode\<close> on the accumulated bytes and the three branches on its result.
\<close>

definition decode_accumulated ::
  "('d, 'f, 'e, 'h) env \<Rightarrow> ('d, 'f, 'e, 'h) mp3codec \<Rightarrow> ('d, 'f, 'e, 'h) mp3codec option" where
  "decode_accumulated E x = do {
     h \<leftarrow> hip x;
     acc \<leftarrow> mp3_accumulator x;
     bytes \<leftarrow> (if 0 \<le> mp3_accumulator_fill x \<and> mp3_accumulator_fill x \<le> int (length acc)
               then Some (take (nat (mp3_accumulator_fill x)) acc) else None);
     dl \<leftarrow> decode_pcm_left x;
     dr \<leftarrow> decode_pcm_right x;
     let (decoded_samples, pcm_l, pcm_r, h) = hip_decode E h bytes;
     dl \<leftarrow> store_prefix dl pcm_l;
     dr \<leftarrow> store_prefix dr pcm_r;
     let x = x\<lparr>hip := Some h, decode_pcm_left := Some dl, decode_pcm_right := Some dr\<rparr>;
     if decoded_samples > 0 then do {
       x \<leftarrow> for_loop 0 decoded_samples (ring_write_sample E) x;
       Some (x\<lparr>mp3_accumulator_fill := 0\<rparr>)
     } else if decoded_samples = 0 then Some x
     else Some (x\<lparr>mp3_accumulator_fill := 0\<rparr>)
   }"

text \<open>
  A full frame, after the check of the handles: conversion to \<^verbatim>\<open>short\<close>, the call of
  \<^verbatim>\<open>lame_encode_buffer\<close>, the reset of the fill, and accumulation and decoding when the
  encoder returned bytes. The encoder must not write past \<^verbatim>\<open>mp3_buffer\<close>.
\<close>

definition encode_frame ::
  "('d, 'f, 'e, 'h) env \<Rightarrow> ('d, 'f, 'e, 'h) mp3codec \<Rightarrow> ('d, 'f, 'e, 'h) mp3codec option" where
  "encode_frame E x = do {
     (pcm_left, pcm_right) \<leftarrow>
       for_loop 0 MP3_FRAME_SIZE (convert_sample E x)
         (replicate (nat MP3_FRAME_SIZE) 0, replicate (nat MP3_FRAME_SIZE) 0);
     g \<leftarrow> gfp x;
     let (mp3_bytes, mp3_buffer, g) = lame_encode_buffer E g pcm_left pcm_right;
     if int (length mp3_buffer) > MP3_BUFFER_SIZE then None
     else do {
       let x = x\<lparr>gfp := Some g\<rparr>;
       let x = x\<lparr>encode_buffer_fill := 0\<rparr>;
       if mp3_bytes > 0 then do {
         x \<leftarrow> accumulate_chunk x mp3_buffer mp3_bytes;
         decode_accumulated E x
       } else Some x
     }
   }"

lemma for_loop_preserves:
  assumes "for_loop i n body s = Some s'" and "P s"
    and "\<And>j t t'. body j t = Some t' \<Longrightarrow> P t \<Longrightarrow> P t'"
  shows "P s'"
  using assms
proof (induction i n body s rule: for_loop.induct)
  case (1 i n body s)
  show ?case
  proof (cases "i < n")
    case True
    with "1.prems"(1) obtain t where t: "body i s = Some t" and r: "for_loop (i + 1) n body t = Some s'"
      by (subst (asm) for_loop.simps) (auto split: bind_splits)
    have "P t" using "1.prems"(3) [OF t "1.prems"(2)] .
    from "1.IH" [OF True t r this "1.prems"(3)] show ?thesis .
  next
    case False
    with "1.prems"(1) have "s' = s" by (subst (asm) for_loop.simps) simp
    with "1.prems"(2) show ?thesis by simp
  qed
qed

lemma copy_sample_fill:
  "copy_sample E ins sp i x = Some x' \<Longrightarrow> encode_buffer_fill x' = encode_buffer_fill x"
  by (auto simp: copy_sample_def Let_def split: bind_splits)

lemma copy_loop_fill:
  assumes "for_loop i n (copy_sample E ins sp) x = Some x'"
  shows "encode_buffer_fill x' = encode_buffer_fill x"
  using assms
  by (rule for_loop_preserves [where P = "\<lambda>t. encode_buffer_fill t = encode_buffer_fill x"])
     (auto dest: copy_sample_fill)

lemma ring_write_sample_fill:
  "ring_write_sample E i x = Some x' \<Longrightarrow> encode_buffer_fill x' = encode_buffer_fill x"
  by (auto simp: ring_write_sample_def Let_def split: bind_splits if_splits)

lemma ring_write_loop_fill:
  assumes "for_loop i n (ring_write_sample E) x = Some x'"
  shows "encode_buffer_fill x' = encode_buffer_fill x"
  using assms
  by (rule for_loop_preserves [where P = "\<lambda>t. encode_buffer_fill t = encode_buffer_fill x"])
     (auto dest: ring_write_sample_fill)

lemma accumulate_chunk_fill:
  "accumulate_chunk x buf n = Some x' \<Longrightarrow> encode_buffer_fill x' = encode_buffer_fill x"
  by (auto simp: accumulate_chunk_def Let_def split: bind_splits if_splits)

lemma decode_accumulated_fill:
  "decode_accumulated E x = Some x' \<Longrightarrow> encode_buffer_fill x' = encode_buffer_fill x"
  by (auto simp: decode_accumulated_def Let_def split: bind_splits if_splits prod.splits
      dest!: ring_write_loop_fill)

lemma encode_frame_fill: "encode_frame E x = Some x' \<Longrightarrow> encode_buffer_fill x' = 0"
  by (auto simp: encode_frame_def Let_def split: bind_splits if_splits prod.splits
      dest!: decode_accumulated_fill accumulate_chunk_fill)

text \<open>
  The loop \<^verbatim>\<open>while (samples_processed < sampleframes)\<close>. The \<^verbatim>\<open>break\<close> of the handle
  check ends it with the fill reset.
\<close>

function input_loop ::
  "('d, 'f, 'e, 'h) env \<Rightarrow> 'd list \<times> 'd list \<Rightarrow> int \<Rightarrow> int \<Rightarrow>
   ('d, 'f, 'e, 'h) mp3codec \<Rightarrow> ('d, 'f, 'e, 'h) mp3codec option" where
  "input_loop E ins sampleframes samples_processed x =
     (if samples_processed < sampleframes then
        (let samples_to_copy = sampleframes - samples_processed;
             buffer_space = MP3_FRAME_SIZE - encode_buffer_fill x;
             samples_to_copy =
               (if samples_to_copy > buffer_space then buffer_space else samples_to_copy)
         in do {
           x1 \<leftarrow> for_loop 0 samples_to_copy (copy_sample E ins samples_processed) x;
           let x2 = x1\<lparr>encode_buffer_fill := encode_buffer_fill x1 + samples_to_copy\<rparr>;
           let samples_processed' = samples_processed + samples_to_copy;
           if encode_buffer_fill x2 \<ge> MP3_FRAME_SIZE then
             (if initialized x2 = 0 \<or> gfp x2 = None \<or> hip x2 = None
              then Some (x2\<lparr>encode_buffer_fill := 0\<rparr>)
              else do {
                x3 \<leftarrow> encode_frame E x2;
                input_loop E ins sampleframes samples_processed' x3
              })
           else input_loop E ins sampleframes samples_processed' x2
         })
      else Some x)"
  by pat_completeness auto
termination
proof (relation "measures [\<lambda>(E, ins, n, sp, x). if encode_buffer_fill x > MP3_FRAME_SIZE then 1 else 0,
                           \<lambda>(E, ins, n, sp, x). nat (n - sp),
                           \<lambda>(E, ins, n, sp, x). if encode_buffer_fill x \<ge> MP3_FRAME_SIZE then 1 else 0]",
       goal_cases)
  case 1
  show ?case by simp
next
  case (2 E ins n sp x c0 space c x1 x2 sp' x3)
  then show ?case
    by (auto simp: MP3_FRAME_SIZE_def dest!: encode_frame_fill copy_loop_fill split: if_splits)
next
  case (3 E ins n sp x c0 space c x1 x2 sp')
  then show ?case
    by (auto simp: MP3_FRAME_SIZE_def dest!: copy_loop_fill split: if_splits)
qed

declare input_loop.simps [simp del]

text \<open>The bodies of the three output loops: silence, bypass, and the read from the ring.\<close>

definition silence_sample ::
  "('d, 'f, 'e, 'h) env \<Rightarrow> int \<Rightarrow> 'd list \<times> 'd list \<Rightarrow> ('d list \<times> 'd list) option" where
  "silence_sample E i outs = do {
     o0 \<leftarrow> array_write (fst outs) i (d_zero E);
     o1 \<leftarrow> array_write (snd outs) i (d_zero E);
     Some (o0, o1)
   }"

definition bypass_sample ::
  "('d, 'f, 'e, 'h) env \<Rightarrow> ('d, 'f, 'e, 'h) mp3codec \<Rightarrow> 'd list \<times> 'd list \<Rightarrow> int \<Rightarrow>
   'd list \<times> 'd list \<Rightarrow> ('d list \<times> 'd list) option" where
  "bypass_sample E x ins i outs = do {
     l \<leftarrow> array_read (fst ins) i;
     o0 \<leftarrow> array_write (fst outs) i (d_mul E (d_mul E l (input_gain x)) (output_gain x));
     r \<leftarrow> array_read (snd ins) i;
     o1 \<leftarrow> array_write (snd outs) i (d_mul E (d_mul E r (input_gain x)) (output_gain x));
     Some (o0, o1)
   }"

definition ring_read_sample ::
  "('d, 'f, 'e, 'h) env \<Rightarrow> int \<Rightarrow> ('d, 'f, 'e, 'h) mp3codec \<times> 'd list \<times> 'd list \<Rightarrow>
   (('d, 'f, 'e, 'h) mp3codec \<times> 'd list \<times> 'd list) option" where
  "ring_read_sample E i s =
     (let (x, o0, o1) = s;
          available =
            (if ring_write_pos x \<ge> ring_read_pos x then ring_write_pos x - ring_read_pos x
             else (ring_size x - ring_read_pos x) + ring_write_pos x)
      in if available > total_latency_samples x \<or> decode_delay_compensation x = 0 then do {
           rl \<leftarrow> output_ring_left x;
           l \<leftarrow> array_read rl (ring_read_pos x);
           o0 \<leftarrow> array_write o0 i (f_mul_d E l (output_gain x));
           rr \<leftarrow> output_ring_right x;
           r \<leftarrow> array_read rr (ring_read_pos x);
           o1 \<leftarrow> array_write o1 i (f_mul_d E r (output_gain x));
           let x = x\<lparr>ring_read_pos := ring_read_pos x + 1\<rparr>;
           Some (if ring_read_pos x \<ge> ring_size x then x\<lparr>ring_read_pos := 0\<rparr> else x, o0, o1)
         } else do {
           o0 \<leftarrow> array_write o0 i (d_zero E);
           o1 \<leftarrow> array_write o1 i (d_zero E);
           Some (x, o0, o1)
         })"

text \<open>
  \<^verbatim>\<open>mp3codec_perform64\<close>. \<open>ins\<close> is the pair \<^verbatim>\<open>ins[0]\<close>, \<^verbatim>\<open>ins[1]\<close>; \<open>outs\<close> is the pair
  \<^verbatim>\<open>outs[0]\<close>, \<^verbatim>\<open>outs[1]\<close> with the contents the host left there. The result is the object
  and the output arrays after the call.
\<close>

definition mp3codec_perform64 ::
  "('d, 'f, 'e, 'h) env \<Rightarrow> ('d, 'f, 'e, 'h) mp3codec \<Rightarrow> 'd list \<times> 'd list \<Rightarrow> int \<Rightarrow>
   'd list \<times> 'd list \<Rightarrow> int \<Rightarrow> int \<Rightarrow>
   (('d, 'f, 'e, 'h) mp3codec \<times> 'd list \<times> 'd list) option" where
  "mp3codec_perform64 E x ins numins outs numouts sampleframes =
     (if initialized x = 0 then do {
        outs \<leftarrow> for_loop 0 sampleframes (silence_sample E) outs;
        Some (x, outs)
      }
      else if bypass x \<noteq> 0 then
        (if numins \<ge> 2 \<and> numouts \<ge> 2 then do {
           outs \<leftarrow> for_loop 0 sampleframes (bypass_sample E x ins) outs;
           Some (x, outs)
         } else Some (x, outs))
      else if encode_buffer_left x = None \<or> encode_buffer_right x = None
              \<or> output_ring_left x = None \<or> output_ring_right x = None then do {
        outs \<leftarrow> for_loop 0 sampleframes (silence_sample E) outs;
        Some (x, outs)
      }
      else do {
        x \<leftarrow> input_loop E ins sampleframes 0 x;
        for_loop 0 sampleframes (ring_read_sample E) (x, outs)
      })"

section \<open>The host, and the vocabulary of the properties\<close>

text \<open>
  The host calls the perform routine once for each block, with two inlets and two outlets
  and output arrays as long as the block. The result is the object after the last block
  and the output of every block.
\<close>

fun host_run ::
  "('d, 'f, 'e, 'h) env \<Rightarrow> ('d, 'f, 'e, 'h) mp3codec \<Rightarrow> ('d list \<times> 'd list) list \<Rightarrow>
   (('d, 'f, 'e, 'h) mp3codec \<times> ('d list \<times> 'd list) list) option" where
  "host_run E x [] = Some (x, [])"
| "host_run E x (b # bs) = do {
     (x, outs) \<leftarrow>
       mp3codec_perform64 E x b 2
         (replicate (length (fst b)) (d_zero E), replicate (length (fst b)) (d_zero E)) 2
         (int (length (fst b)));
     (x, more) \<leftarrow> host_run E x bs;
     Some (x, outs # more)
   }"

text \<open>An allocated array of \<open>n\<close> elements.\<close>

definition allocated :: "int \<Rightarrow> 'a list option \<Rightarrow> bool" where
  "allocated n p = (case p of None \<Rightarrow> False | Some xs \<Rightarrow> int (length xs) = n)"

text \<open>
  The decoding side of the object as a successful initialization leaves it and the perform
  routine keeps it: decoder handle, byte accumulator, decode arrays and ring buffer
  allocated with their sizes, fill and cursors inside them.
\<close>

definition decoder_ready :: "('d, 'f, 'e, 'h) mp3codec \<Rightarrow> bool" where
  "decoder_ready x \<longleftrightarrow>
     hip x \<noteq> None \<and>
     allocated DECODE_BUFFER_SIZE (mp3_accumulator x) \<and>
     0 \<le> mp3_accumulator_fill x \<and> mp3_accumulator_fill x < DECODE_BUFFER_SIZE \<and>
     allocated PCM_BUFFER_SIZE (decode_pcm_left x) \<and>
     allocated PCM_BUFFER_SIZE (decode_pcm_right x) \<and>
     ring_size x = MP3_FRAME_SIZE * 4 \<and>
     allocated (ring_size x) (output_ring_left x) \<and>
     allocated (ring_size x) (output_ring_right x) \<and>
     0 \<le> ring_write_pos x \<and> ring_write_pos x < ring_size x \<and>
     0 \<le> ring_read_pos x \<and> ring_read_pos x < ring_size x"

text \<open>The encoding side in that state: encoder handle and encode buffers.\<close>

definition encoder_ready :: "('d, 'f, 'e, 'h) mp3codec \<Rightarrow> bool" where
  "encoder_ready x \<longleftrightarrow>
     initialized x = 1 \<and> gfp x \<noteq> None \<and>
     allocated PCM_BUFFER_SIZE (encode_buffer_left x) \<and>
     allocated PCM_BUFFER_SIZE (encode_buffer_right x)"

text \<open>The whole pipeline in that state, with a frame under construction.\<close>

definition pipeline_ready :: "('d, 'f, 'e, 'h) mp3codec \<Rightarrow> bool" where
  "pipeline_ready x \<longleftrightarrow>
     encoder_ready x \<and>
     0 \<le> encode_buffer_fill x \<and> encode_buffer_fill x < MP3_FRAME_SIZE \<and>
     decoder_ready x"

text \<open>
  Two objects that agree on everything in front of the decoder: the flags, the gains, the
  encoder handle, the encode buffers and their fill, the latency figures and the console.
\<close>

definition front_unchanged ::
  "('d, 'f, 'e, 'h) mp3codec \<Rightarrow> ('d, 'f, 'e, 'h) mp3codec \<Rightarrow> bool" where
  "front_unchanged x x' \<longleftrightarrow>
     initialized x' = initialized x \<and> bypass x' = bypass x \<and>
     input_gain x' = input_gain x \<and> output_gain x' = output_gain x \<and>
     gfp x' = gfp x \<and>
     encode_buffer_left x' = encode_buffer_left x \<and>
     encode_buffer_right x' = encode_buffer_right x \<and>
     encode_buffer_fill x' = encode_buffer_fill x \<and>
     total_latency_samples x' = total_latency_samples x \<and>
     decode_delay_compensation x' = decode_delay_compensation x \<and>
     max_console x' = max_console x"

text \<open>
  What the program relies on from the library: the encoder writes at most
  \<^verbatim>\<open>MP3_BUFFER_SIZE\<close> bytes and returns at most the number of bytes it wrote; the decoder
  writes and returns at most as many samples as the decode arrays hold.
\<close>

definition engine_ok :: "('d, 'f, 'e, 'h) env \<Rightarrow> bool" where
  "engine_ok E \<longleftrightarrow>
     (\<forall>g l r. int (length (fst (snd (lame_encode_buffer E g l r)))) \<le> MP3_BUFFER_SIZE \<and>
              fst (lame_encode_buffer E g l r)
                \<le> int (length (fst (snd (lame_encode_buffer E g l r))))) \<and>
     (\<forall>h b. fst (hip_decode E h b) \<le> PCM_BUFFER_SIZE \<and>
            int (length (fst (snd (hip_decode E h b)))) \<le> PCM_BUFFER_SIZE \<and>
            int (length (fst (snd (snd (hip_decode E h b))))) \<le> PCM_BUFFER_SIZE)"

text \<open>A channel of input scaled by the input gain, as the copy loop stores it.\<close>

definition gain_scaled :: "('d, 'f, 'e, 'h) env \<Rightarrow> 'd \<Rightarrow> 'd list \<Rightarrow> 'f list" where
  "gain_scaled E g xs = map (\<lambda>s. d_to_float E (d_mul E s g)) xs"

text \<open>A channel of ring samples scaled by the output gain, as the read loop emits it.\<close>

definition gain_out :: "('d, 'f, 'e, 'h) env \<Rightarrow> 'd \<Rightarrow> 'f list \<Rightarrow> 'd list" where
  "gain_out E g xs = map (\<lambda>s. f_mul_d E s g) xs"

text \<open>The complete frames of \<open>n\<close> samples in a stream, and the samples left over.\<close>

fun chunks :: "nat \<Rightarrow> 'a list \<Rightarrow> 'a list list" where
  "chunks n xs = (if n = 0 \<or> length xs < n then [] else take n xs # chunks n (drop n xs))"

fun leftover :: "nat \<Rightarrow> 'a list \<Rightarrow> 'a list" where
  "leftover n xs = (if n = 0 \<or> length xs < n then xs else leftover n (drop n xs))"

declare chunks.simps [simp del] leftover.simps [simp del]

text \<open>The stereo frames of a pair of channels.\<close>

definition stereo_frames :: "'a list \<Rightarrow> 'a list \<Rightarrow> ('a list \<times> 'a list) list" where
  "stereo_frames l r = zip (chunks (nat MP3_FRAME_SIZE) l) (chunks (nat MP3_FRAME_SIZE) r)"

text \<open>
  The encoder state after one call of \<^verbatim>\<open>lame_encode_buffer\<close> for each frame of a list, in
  order, each converted to \<^verbatim>\<open>short\<close>.
\<close>

definition encoder_feed ::
  "('d, 'f, 'e, 'h) env \<Rightarrow> 'e \<Rightarrow> ('f list \<times> 'f list) list \<Rightarrow> 'e" where
  "encoder_feed E g frames =
     foldl (\<lambda>g fr. snd (snd (lame_encode_buffer E g (map (float_to_short E) (fst fr))
                                                  (map (float_to_short E) (snd fr)))))
       g frames"

text \<open>The samples of a frame under construction: the first \<open>fill\<close> elements of a buffer.\<close>

definition pending :: "'a list option \<Rightarrow> int \<Rightarrow> 'a list" where
  "pending p fill = (case p of None \<Rightarrow> [] | Some xs \<Rightarrow> take (nat fill) xs)"

text \<open>What a failed initialization leaves: \<open>initialized = 0\<close> and every pointer NULL.\<close>

definition torn_down :: "('d, 'f, 'e, 'h) mp3codec \<Rightarrow> bool" where
  "torn_down x \<longleftrightarrow>
     initialized x = 0 \<and> gfp x = None \<and> hip x = None \<and>
     encode_buffer_left x = None \<and> encode_buffer_right x = None \<and>
     mp3_accumulator x = None \<and> decode_pcm_left x = None \<and> decode_pcm_right x = None \<and>
     output_ring_left x = None \<and> output_ring_right x = None"

text \<open>The samples between the cursors, and the gate of the read loop, as the loop computes them.\<close>

definition ring_available :: "('d, 'f, 'e, 'h) mp3codec \<Rightarrow> int" where
  "ring_available x =
     (if ring_write_pos x \<ge> ring_read_pos x then ring_write_pos x - ring_read_pos x
      else (ring_size x - ring_read_pos x) + ring_write_pos x)"

definition read_gate :: "('d, 'f, 'e, 'h) mp3codec \<Rightarrow> bool" where
  "read_gate x \<longleftrightarrow> ring_available x > total_latency_samples x \<or> decode_delay_compensation x = 0"

text \<open>The samples handed to the encoder for a full frame.\<close>

definition frame_pcm :: "('d, 'f, 'e, 'h) env \<Rightarrow> 'f list \<Rightarrow> int list" where
  "frame_pcm E buf = map (float_to_short E) (take (nat MP3_FRAME_SIZE) buf)"

text \<open>The two channels of the frame under construction.\<close>

definition pending_left :: "('d, 'f, 'e, 'h) mp3codec \<Rightarrow> 'f list" where
  "pending_left x = pending (encode_buffer_left x) (encode_buffer_fill x)"

definition pending_right :: "('d, 'f, 'e, 'h) mp3codec \<Rightarrow> 'f list" where
  "pending_right x = pending (encode_buffer_right x) (encode_buffer_fill x)"

section \<open>A test double for the environment\<close>

text \<open>
  Integers stand for the floating-point types. The encoder state is the list of settings
  received and the list of frames received; \<open>accepts\<close> decides whether
  \<^verbatim>\<open>lame_init_params\<close> takes a list of settings. The encoder returns one byte for each
  frame; the decoder asks for more data below two bytes, fails on a leading zero byte and
  returns two samples otherwise.
\<close>

type_synonym stub_encoder = "lame_setting list \<times> (int list \<times> int list) list"

definition stub_env :: "(lame_setting list \<Rightarrow> bool) \<Rightarrow> (int, int, stub_encoder, nat) env" where
  "stub_env accepts =
     \<lparr>d_zero = 0, f_zero = 0,
      d_mul = (\<lambda>a b. a * b), d_to_float = (\<lambda>d. d), f_mul_d = (\<lambda>f g. f * g),
      f_scale_to_int = (\<lambda>f. f), short_div = (\<lambda>s. s),
      ms_of_samples = (\<lambda>n rate. n * 1000 div rate),
      lame_init = Some ([], []),
      lame_set = (\<lambda>s g. (fst g @ [s], snd g)),
      lame_init_params = (\<lambda>g. (if accepts (fst g) then 0 else - 1, g)),
      lame_get_encoder_delay = (\<lambda>g. 576),
      lame_encode_buffer = (\<lambda>g l r. (1, [1], (fst g, snd g @ [(l, r)]))),
      hip_decode_init = Some 0,
      hip_decode = (\<lambda>h bytes.
         if length bytes < 2 then (0, [], [], Suc h)
         else if hd bytes = 0 then (- 1, [], [], Suc h)
         else (2, [3, 4], [5, 6], Suc h))\<rparr>"

text \<open>The object as \<^verbatim>\<open>mp3codec_new\<close> sets it up before it calls the initializer.\<close>

definition stub_object :: "(int, int, stub_encoder, nat) mp3codec" where
  "stub_object =
     \<lparr>gfp = None, hip = None, quality = 5, input_gain = 1, output_gain = 1, bypass = 0,
      enable_lowpass = 1, enable_highpass = 1, enable_ms_stereo = 1, enable_ath_only = 1,
      enable_experimental = 1, enable_emphasis = 1, sample_rate = 44100, channels = 2,
      initialized = 0, encode_buffer_left = None, encode_buffer_right = None,
      encode_buffer_fill = 0, mp3_accumulator = None, mp3_accumulator_fill = 0,
      decode_pcm_left = None, decode_pcm_right = None, output_ring_left = None,
      output_ring_right = None, ring_write_pos = 0, ring_read_pos = 0, ring_size = 0,
      total_latency_samples = 0, total_latency_ms = 0, lame_encoder_delay = 0,
      lame_decoder_delay = 0, buffer_latency_samples = 0, decode_delay_compensation = 0,
      analysis_outlet = True, status_outlet = True, max_console = []\<rparr>"

text \<open>The settings the initializer sends for that object.\<close>

definition stub_settings :: "lame_setting list" where
  "stub_settings =
     [Num_channels 2, In_samplerate 44100, Out_samplerate 44100, VBR_off, Brate 112,
      Quality 5, Mode JOINT_STEREO, Force_ms 1, ATHonly 1, ATHshort 1, No_short_blocks 0,
      Emphasis 1, ExperimentalX 9, ExperimentalY 1, Lowpassfreq 8000, Highpassfreq 100,
      Disable_reservoir 1]"

text \<open>The object after a successful initialization with an engine that accepts.\<close>

definition ready_object :: "(int, int, stub_encoder, nat) mp3codec" where
  "ready_object =
     stub_object
       \<lparr>gfp := Some (stub_settings, []), hip := Some 0, initialized := 1,
        encode_buffer_left := Some (replicate 4608 0),
        encode_buffer_right := Some (replicate 4608 0),
        mp3_accumulator := Some (replicate 16384 0),
        decode_pcm_left := Some (replicate 4608 0),
        decode_pcm_right := Some (replicate 4608 0),
        output_ring_left := Some (replicate 4608 0),
        output_ring_right := Some (replicate 4608 0),
        ring_size := 4608, total_latency_samples := 2256, total_latency_ms := 51,
        lame_encoder_delay := 576, lame_decoder_delay := 528,
        buffer_latency_samples := 1152\<rparr>"

text \<open>Engines and objects for the examples.\<close>

definition accepting_env :: "(int, int, stub_encoder, nat) env" where
  "accepting_env = stub_env (\<lambda>cfg. True)"

definition rejecting_env :: "(int, int, stub_encoder, nat) env" where
  "rejecting_env = stub_env (\<lambda>cfg. False)"

definition fallback_only_env :: "(int, int, stub_encoder, nat) env" where
  "fallback_only_env = stub_env (\<lambda>cfg. cfg \<noteq> [] \<and> last cfg = Lowpassfreq 6000)"



definition quality9_object :: "(int, int, stub_encoder, nat) mp3codec" where
  "quality9_object = stub_object\<lparr>quality := 9\<rparr>"


definition bypassed_object :: "(int, int, stub_encoder, nat) mp3codec" where
  "bypassed_object = stub_object\<lparr>bypass := 1\<rparr>"

definition bypassed_ready_object :: "(int, int, stub_encoder, nat) mp3codec" where
  "bypassed_ready_object = ready_object\<lparr>bypass := 1\<rparr>"

definition with_accumulator :: "byte list \<Rightarrow> (int, int, stub_encoder, nat) mp3codec" where
  "with_accumulator bytes =
     ready_object\<lparr>mp3_accumulator := Some (bytes @ replicate (16384 - length bytes) 0),
                  mp3_accumulator_fill := int (length bytes)\<rparr>"

definition nearly_full_object :: "(int, int, stub_encoder, nat) mp3codec" where
  "nearly_full_object = ready_object\<lparr>encode_buffer_fill := 1152, mp3_accumulator_fill := 16383\<rparr>"

definition decoded_object :: "(int, int, stub_encoder, nat) mp3codec" where
  "decoded_object =
     ready_object\<lparr>decode_pcm_left := Some (3 # 4 # replicate 4606 0),
                  decode_pcm_right := Some (5 # 6 # replicate 4606 0)\<rparr>"

definition lagging_object :: "(int, int, stub_encoder, nat) mp3codec" where
  "lagging_object = decoded_object\<lparr>ring_read_pos := 1152\<rparr>"

definition wrapping_object :: "(int, int, stub_encoder, nat) mp3codec" where
  "wrapping_object = decoded_object\<lparr>ring_write_pos := 4607, ring_read_pos := 4607\<rparr>"

section \<open>Loops\<close>

lemma for_loop_done: "n \<le> i \<Longrightarrow> for_loop i n body s = Some s"
  by (simp add: for_loop.simps)

lemma for_loop_invariant:
  assumes "I i s" and "i \<le> n"
    and "\<And>j t. i \<le> j \<Longrightarrow> j < n \<Longrightarrow> I j t \<Longrightarrow> \<exists>t'. body j t = Some t' \<and> I (j + 1) t'"
  shows "\<exists>s'. for_loop i n body s = Some s' \<and> I n s'"
  using assms
proof (induction i n body s rule: for_loop.induct)
  case (1 i n body s)
  show ?case
  proof (cases "i < n")
    case True
    from "1.prems"(3) [OF _ True "1.prems"(1)] obtain t
      where t: "body i s = Some t" and It: "I (i + 1) t" by auto
    have "\<exists>s'. for_loop (i + 1) n body t = Some s' \<and> I n s'"
    proof (rule "1.IH" [OF True t It])
      show "i + 1 \<le> n" using True by simp
    next
      fix j u assume "i + 1 \<le> j" "j < n" "I j u"
      then show "\<exists>t'. body j u = Some t' \<and> I (j + 1) t'"
        using "1.prems"(3) [of j u] by simp
    qed
    then show ?thesis using True t by (subst for_loop.simps) simp
  next
    case False
    with "1.prems"(2) have "i = n" by simp
    with "1.prems"(1) show ?thesis by (simp add: for_loop_done)
  qed
qed

lemma silence_step:
  "j < length a \<Longrightarrow> (replicate j z @ drop j a)[j := z] = replicate (Suc j) z @ drop (Suc j) a"
proof -
  assume j: "j < length a"
  have d: "drop j a = a ! j # drop (Suc j) a"
    using j by (simp add: Cons_nth_drop_Suc)
  have "(replicate j z @ drop j a)[j := z] = replicate j z @ (z # drop (Suc j) a)"
    by (subst d) (simp add: list_update_append)
  then show ?thesis by (simp add: replicate_app_Cons_same)
qed

lemma silence_loop:
  assumes "n \<le> int (length a)" and "n \<le> int (length b)" and "0 \<le> n"
  shows "for_loop 0 n (silence_sample E) (a, b) =
           Some (replicate (nat n) (d_zero E) @ drop (nat n) a,
                 replicate (nat n) (d_zero E) @ drop (nat n) b)"
proof -
  let ?I = "\<lambda>j t. 0 \<le> j \<and> t = (replicate (nat j) (d_zero E) @ drop (nat j) a,
                                replicate (nat j) (d_zero E) @ drop (nat j) b)"
  have "\<exists>s'. for_loop 0 n (silence_sample E) (a, b) = Some s' \<and> ?I n s'"
  proof (rule for_loop_invariant [where I = ?I])
    show "?I 0 (a, b)" by simp
    show "0 \<le> n" by fact
  next
    fix j t assume j: "0 \<le> j" "j < n" and I: "?I j t"
    have ja: "nat j < length a" and jb: "nat j < length b" using j assms by auto
    have ja': "j < int (length a)" and jb': "j < int (length b)" using j assms by auto
    have s: "nat (j + 1) = Suc (nat j)" using j by simp
    show "\<exists>t'. silence_sample E j t = Some t' \<and> ?I (j + 1) t'"
      using j I ja jb ja' jb'
      by (simp add: silence_sample_def array_write_def s silence_step)
  qed
  then show ?thesis by auto
qed

section \<open>Facts about the initializer\<close>

lemma cleanup_fields:
  "quality (mp3codec_cleanup_processor x) = quality x"
  "analysis_outlet (mp3codec_cleanup_processor x) = analysis_outlet x"
  "sample_rate (mp3codec_cleanup_processor x) = sample_rate x"
  "max_console (mp3codec_cleanup_processor x) = max_console x"
  "bypass (mp3codec_cleanup_processor x) = bypass x"
  "input_gain (mp3codec_cleanup_processor x) = input_gain x"
  "output_gain (mp3codec_cleanup_processor x) = output_gain x"
  "enable_lowpass (mp3codec_cleanup_processor x) = enable_lowpass x"
  "initialized (mp3codec_cleanup_processor x) = 0"
  "gfp (mp3codec_cleanup_processor x) = None"
  "hip (mp3codec_cleanup_processor x) = None"
  "encode_buffer_left (mp3codec_cleanup_processor x) = None"
  "encode_buffer_right (mp3codec_cleanup_processor x) = None"
  "mp3_accumulator (mp3codec_cleanup_processor x) = None"
  "decode_pcm_left (mp3codec_cleanup_processor x) = None"
  "decode_pcm_right (mp3codec_cleanup_processor x) = None"
  "output_ring_left (mp3codec_cleanup_processor x) = None"
  "output_ring_right (mp3codec_cleanup_processor x) = None"
  by (simp_all add: mp3codec_cleanup_processor_def)

lemma torn_down_cleanup: "torn_down (mp3codec_cleanup_processor x)"
  by (simp add: torn_down_def cleanup_fields)

lemma torn_down_log: "torn_down x \<Longrightarrow> torn_down (log_error m (x\<lparr>gfp := None\<rparr>))"
  by (simp add: torn_down_def log_error_def)

lemma torn_down_log': "torn_down x \<Longrightarrow> torn_down (log_error m x)"
  by (simp add: torn_down_def log_error_def)

lemma init_decoder_failure:
  assumes "init_decoder_and_buffers E x g = (r, x')" and "r < 0" and "torn_down x"
  shows "torn_down x' \<and> (\<exists>m. max_console x' = max_console x @ [m]) \<and> quality x' = quality x
         \<and> bypass x' = bypass x"
proof (cases "hip_decode_init E")
  case None
  with assms(1) have "x' = log_error Err_hip_init (x\<lparr>gfp := None\<rparr>)"
    by (simp add: init_decoder_and_buffers_def)
  with torn_down_log [OF assms(3), of Err_hip_init] show ?thesis
    by (simp add: log_error_def)
next
  case (Some h)
  with assms(1) have "r = 0" by (auto simp: init_decoder_and_buffers_def Let_def)
  with assms(2) show ?thesis by simp
qed

lemma init_decoder_success:
  assumes "init_decoder_and_buffers E x g = (r, x')" and "0 \<le> r"
  shows "r = 0 \<and> gfp x' = Some g \<and> initialized x' = 1 \<and>
         lame_encoder_delay x' = lame_get_encoder_delay E g \<and>
         lame_decoder_delay x' = 528 \<and>
         buffer_latency_samples x' = MP3_FRAME_SIZE \<and>
         total_latency_samples x' = lame_get_encoder_delay E g + 528 + MP3_FRAME_SIZE \<and>
         total_latency_ms x' = ms_of_samples E (total_latency_samples x') (sample_rate x) \<and>
         decode_delay_compensation x' = 0 \<and>
         analysis_outlet x' = analysis_outlet x \<and> quality x' = quality x \<and>
         max_console x' = max_console x \<and> bypass x' = bypass x \<and>
         encode_buffer_fill x' = 0 \<and> pipeline_ready x'"
proof (cases "hip_decode_init E")
  case None
  with assms show ?thesis by (simp add: init_decoder_and_buffers_def)
next
  case (Some h)
  with assms(1) have r: "r = 0" and x': "x' = snd (init_decoder_and_buffers E x g)"
    by (auto simp: init_decoder_and_buffers_def Let_def)
  show ?thesis
    unfolding x' r
    by (simp add: init_decoder_and_buffers_def Some Let_def pipeline_ready_def
      encoder_ready_def decoder_ready_def allocated_def sysmem_newptrclear_def PCM_BUFFER_SIZE_def
      MP3_FRAME_SIZE_def DECODE_BUFFER_SIZE_def)
qed

lemma cleanup_gfp: "(mp3codec_cleanup_processor x)\<lparr>gfp := None\<rparr> = mp3codec_cleanup_processor x"
  by (simp add: mp3codec_cleanup_processor_def)

lemma init_shape:
  assumes "mp3codec_init_processor E x = Some (r, x')"
  shows "(\<exists>m. r = - 1 \<and> x' = log_error m (mp3codec_cleanup_processor x)) \<or>
         (\<exists>g. init_decoder_and_buffers E (mp3codec_cleanup_processor x) g = (r, x'))"
  using assms
  by (auto simp: mp3codec_init_processor_def Let_def cleanup_gfp
      split: option.splits bind_splits prod.splits if_splits)

lemma init_failure:
  assumes "mp3codec_init_processor E x = Some (r, x')" and "r < 0"
  shows "torn_down x' \<and> (\<exists>m. max_console x' = max_console x @ [m]) \<and> quality x' = quality x
         \<and> bypass x' = bypass x"
  using init_shape [OF assms(1)]
proof (elim disjE exE conjE)
  fix m assume "x' = log_error m (mp3codec_cleanup_processor x)"
  then show ?thesis
    using torn_down_log' [OF torn_down_cleanup, of m x]
    by (simp add: log_error_def cleanup_fields)
next
  fix g assume "init_decoder_and_buffers E (mp3codec_cleanup_processor x) g = (r, x')"
  from init_decoder_failure [OF this assms(2) torn_down_cleanup]
  show ?thesis by (simp add: cleanup_fields)
qed

lemma init_success:
  assumes "mp3codec_init_processor E x = Some (r, x')" and "0 \<le> r"
  shows "r = 0 \<and> (\<exists>g. gfp x' = Some g \<and> 
         lame_encoder_delay x' = lame_get_encoder_delay E g \<and>
         total_latency_samples x' = lame_get_encoder_delay E g + 528 + MP3_FRAME_SIZE) \<and>
         initialized x' = 1 \<and>
         lame_decoder_delay x' = 528 \<and>
         buffer_latency_samples x' = MP3_FRAME_SIZE \<and>
         total_latency_ms x' = ms_of_samples E (total_latency_samples x') (sample_rate x) \<and>
         decode_delay_compensation x' = 0 \<and>
         analysis_outlet x' = analysis_outlet x \<and> quality x' = quality x \<and>
         max_console x' = max_console x \<and> bypass x' = bypass x \<and>
         encode_buffer_fill x' = 0 \<and> pipeline_ready x'"
  using init_shape [OF assms(1)]
proof (elim disjE exE conjE)
  fix m assume "r = - 1"
  with assms(2) show ?thesis by simp
next
  fix g assume "init_decoder_and_buffers E (mp3codec_cleanup_processor x) g = (r, x')"
  from init_decoder_success [OF this assms(2)]
  show ?thesis by (simp add: cleanup_fields)
qed

lemma QUALITY_BITRATES_floor:
  assumes "0 \<le> q" and "q \<le> 9"
  shows "array_read QUALITY_BITRATES q = Some (QUALITY_BITRATES ! nat q)"
    and "16 < QUALITY_BITRATES ! nat q"
proof -
  from assms have "nat q \<in> {0, 1, 2, 3, 4, 5, 6, 7, 8, 9}" by (simp; arith)
  then show "16 < QUALITY_BITRATES ! nat q"
    by (auto simp: QUALITY_BITRATES_def)
  from assms show "array_read QUALITY_BITRATES q = Some (QUALITY_BITRATES ! nat q)"
    by (simp add: array_read_def QUALITY_BITRATES_def)
qed


lemma init_stub: "mp3codec_init_processor accepting_env stub_object = Some (0, ready_object)"
  by (simp add: mp3codec_init_processor_def accepting_env_def stub_env_def stub_object_def
      mp3codec_cleanup_processor_def ready_object_def stub_settings_def
      array_read_def QUALITY_BITRATES_def lame_configure_def init_decoder_and_buffers_def Let_def
      sysmem_newptrclear_def PCM_BUFFER_SIZE_def MP3_FRAME_SIZE_def DECODE_BUFFER_SIZE_def)

lemma lame_configure_cleanup:
  "lame_configure E (mp3codec_cleanup_processor x) b g = lame_configure E x b g"
  by (simp add: lame_configure_def mp3codec_cleanup_processor_def)

lemma stub_eval:
  "lame_init (stub_env a) = Some ([], [])"
  "lame_set (stub_env a) s g = (fst g @ [s], snd g)"
  "lame_init_params (stub_env a) g = (if a (fst g) then 0 else - 1, g)"
  "lame_get_encoder_delay (stub_env a) g = 576"
  "hip_decode_init (stub_env a) = Some 0"
  "f_zero (stub_env a) = 0"
  "d_zero (stub_env a) = 0"
  "ms_of_samples (stub_env a) n rate = n * 1000 div rate"
  "d_mul (stub_env a) u v = u * v"
  by (simp_all add: stub_env_def)

lemmas init_eval =
  mp3codec_init_processor_def mp3codec_cleanup_processor_def array_read_def
  QUALITY_BITRATES_def lame_configure_def init_decoder_and_buffers_def Let_def
  sysmem_newptrclear_def PCM_BUFFER_SIZE_def MP3_FRAME_SIZE_def DECODE_BUFFER_SIZE_def
  log_error_def stub_eval

section \<open>Facts about the silent paths of the perform routine\<close>

lemma perform64_not_initialized:
  assumes "initialized x = 0"
    and "length (fst outs) = nat sampleframes" and "length (snd outs) = nat sampleframes"
  shows "mp3codec_perform64 E x ins numins outs numouts sampleframes =
           Some (x, replicate (nat sampleframes) (d_zero E), replicate (nat sampleframes) (d_zero E))"
proof (cases "0 \<le> sampleframes")
  case True
  with assms silence_loop [of sampleframes "fst outs" "snd outs" E] show ?thesis
    by (simp add: mp3codec_perform64_def)
next
  case False
  with assms show ?thesis
    by (simp add: mp3codec_perform64_def for_loop_done prod_eq_iff)
qed

lemma perform64_null_buffers:
  assumes "initialized x \<noteq> 0" and "bypass x = 0"
    and "encode_buffer_left x = None \<or> encode_buffer_right x = None
         \<or> output_ring_left x = None \<or> output_ring_right x = None"
    and "length (fst outs) = nat sampleframes" and "length (snd outs) = nat sampleframes"
  shows "mp3codec_perform64 E x ins numins outs numouts sampleframes =
           Some (x, replicate (nat sampleframes) (d_zero E), replicate (nat sampleframes) (d_zero E))"
proof (cases "0 \<le> sampleframes")
  case True
  with assms silence_loop [of sampleframes "fst outs" "snd outs" E] show ?thesis
    by (simp add: mp3codec_perform64_def)
next
  case False
  with assms show ?thesis
    by (simp add: mp3codec_perform64_def for_loop_done prod_eq_iff)
qed

section \<open>Facts about the loops of the perform routine\<close>

lemma for_loop_nat:
  assumes "I 0 s"
    and "\<And>j t. j < n \<Longrightarrow> I j t \<Longrightarrow> \<exists>t'. body (int j) t = Some t' \<and> I (Suc j) t'"
  shows "\<exists>s'. for_loop 0 (int n) body s = Some s' \<and> I n s'"
proof -
  let ?J = "\<lambda>j t. 0 \<le> j \<and> I (nat j) t"
  have "\<exists>s'. for_loop 0 (int n) body s = Some s' \<and> ?J (int n) s'"
  proof (rule for_loop_invariant [where I = ?J])
    show "?J 0 s" using assms(1) by simp
    show "0 \<le> int n" by simp
  next
    fix j t assume j: "0 \<le> j" "j < int n" and J: "?J j t"
    then have "nat j < n" "I (nat j) t" by auto
    from assms(2) [OF this] obtain t' where "body (int (nat j)) t = Some t'" "I (Suc (nat j)) t'"
      by blast
    moreover have "int (nat j) = j" "nat (j + 1) = Suc (nat j)" using j by auto
    ultimately show "\<exists>t'. body j t = Some t' \<and> ?J (j + 1) t'" using j by auto
  qed
  then show ?thesis by simp
qed

lemma seg_update:
  assumes "length ys = j" and "k + j < length a"
  shows "(take k a @ ys @ drop (k + j) a)[k + j := v] = take k a @ (ys @ [v]) @ drop (Suc (k + j)) a"
proof -
  have d: "drop (k + j) a = a ! (k + j) # drop (Suc (k + j)) a"
    using assms(2) by (simp add: Cons_nth_drop_Suc)
  have k: "length (take k a) = k" using assms(2) by simp
  show ?thesis
    unfolding d using assms(1) k by (simp add: list_update_append)
qed

lemma array_read_nat: "j < length xs \<Longrightarrow> array_read xs (int j) = Some (xs ! j)"
  by (simp add: array_read_def)

lemma array_write_nat: "j < length xs \<Longrightarrow> array_write xs (int j) v = Some (xs[j := v])"
  by (simp add: array_write_def)

lemma gain_scaled_simps:
  "gain_scaled E g [] = []"
  "gain_scaled E g (xs @ [a]) = gain_scaled E g xs @ [d_to_float E (d_mul E a g)]"
  "length (gain_scaled E g xs) = length xs"
  by (simp_all add: gain_scaled_def)

lemma copy_loop:
  fixes x :: "('d, 'f, 'e, 'h) mp3codec"
  assumes bl: "encode_buffer_left x = Some bl" and br: "encode_buffer_right x = Some br"
    and fill: "encode_buffer_fill x = int k"
    and kl: "k + m \<le> length bl" and kr: "k + m \<le> length br"
    and pl: "p + m \<le> length (fst ins)" and pr: "p + m \<le> length (snd ins)"
  shows "for_loop 0 (int m) (copy_sample E ins (int p)) x =
           Some (x\<lparr>encode_buffer_left :=
                     Some (take k bl @ gain_scaled E (input_gain x) (take m (drop p (fst ins)))
                           @ drop (k + m) bl),
                   encode_buffer_right :=
                     Some (take k br @ gain_scaled E (input_gain x) (take m (drop p (snd ins)))
                           @ drop (k + m) br)\<rparr>)"
proof -
  let ?L = "\<lambda>j. take k bl @ gain_scaled E (input_gain x) (take j (drop p (fst ins))) @ drop (k + j) bl"
  let ?R = "\<lambda>j. take k br @ gain_scaled E (input_gain x) (take j (drop p (snd ins))) @ drop (k + j) br"
  let ?I = "\<lambda>j t. t = x\<lparr>encode_buffer_left := Some (?L j), encode_buffer_right := Some (?R j)\<rparr>"
  have "\<exists>s'. for_loop 0 (int m) (copy_sample E ins (int p)) x = Some s' \<and> ?I m s'"
  proof (rule for_loop_nat [where I = ?I])
    show "?I 0 x" using bl br by (simp add: gain_scaled_simps)
  next
    fix j t assume j: "j < m" and t: "?I j t"
    have len: "length (?L j) = length bl" "length (?R j) = length br"
      using j kl kr pl pr by (simp_all add: gain_scaled_def)
    have inb: "k + j < length bl" "k + j < length br" "p + j < length (fst ins)"
      "p + j < length (snd ins)" using j kl kr pl pr by simp_all
    have tl: "take (Suc j) (drop p (fst ins)) = take j (drop p (fst ins)) @ [fst ins ! (p + j)]"
      using inb by (simp add: take_Suc_conv_app_nth)
    have tr: "take (Suc j) (drop p (snd ins)) = take j (drop p (snd ins)) @ [snd ins ! (p + j)]"
      using inb by (simp add: take_Suc_conv_app_nth)
    have gl: "length (gain_scaled E (input_gain x) (take j (drop p (fst ins)))) = j"
      using inb by (simp add: gain_scaled_def)
    have gr: "length (gain_scaled E (input_gain x) (take j (drop p (snd ins)))) = j"
      using inb by (simp add: gain_scaled_def)
    have ul: "(?L j)[k + j := v] = take k bl @ (gain_scaled E (input_gain x) (take j (drop p (fst ins))) @ [v])
               @ drop (Suc (k + j)) bl" for v
      using seg_update [OF gl inb(1)] by simp
    have ur: "(?R j)[k + j := v] = take k br @ (gain_scaled E (input_gain x) (take j (drop p (snd ins))) @ [v])
               @ drop (Suc (k + j)) br" for v
      using seg_update [OF gr inb(2)] by simp
    have i1: "int p + int j = int (p + j)" "int k + int j = int (k + j)" by simp_all
    have rd: "array_read (fst ins) (int (p + j)) = Some (fst ins ! (p + j))"
      "array_read (snd ins) (int (p + j)) = Some (snd ins ! (p + j))"
      using array_read_nat [OF inb(3)] array_read_nat [OF inb(4)] by blast+
    have wl: "array_write (?L j) (int (k + j)) v = Some ((?L j)[k + j := v])" for v
      by (rule array_write_nat) (use inb len in simp)
    have wr: "array_write (?R j) (int (k + j)) v = Some ((?R j)[k + j := v])" for v
      by (rule array_write_nat) (use inb len in simp)
    show "\<exists>t'. copy_sample E ins (int p) (int j) t = Some t' \<and> ?I (Suc j) t'"
      unfolding copy_sample_def t
      by (simp add: fill i1 rd wl wr ul ur tl tr gain_scaled_simps del: of_nat_add)
  qed
  then show ?thesis by simp
qed

lemma ring_write_step:
  fixes t :: "('d, 'f, 'e, 'h) mp3codec"
  assumes "output_ring_left t = Some a" and "output_ring_right t = Some b"
    and "decode_pcm_left t = Some dl" and "decode_pcm_right t = Some dr"
    and "j < length dl" and "j < length dr"
    and "ring_write_pos t = int p" and "ring_size t = int sz"
    and "p < sz" and "length a = sz" and "length b = sz"
  shows "ring_write_sample E (int j) t =
           Some (t\<lparr>output_ring_left := Some (a[p := short_to_float E (dl ! j)]),
                   output_ring_right := Some (b[p := short_to_float E (dr ! j)]),
                   ring_write_pos := int (Suc p mod sz)\<rparr>)"
proof -
  have rd: "array_read dl (int j) = Some (dl ! j)" "array_read dr (int j) = Some (dr ! j)"
    using assms by (simp_all add: array_read_nat)
  have wr: "array_write a (int p) v = Some (a[p := v])" "array_write b (int p) v = Some (b[p := v])" for v
    using assms by (simp_all add: array_write_nat)
  show ?thesis
  proof (cases "Suc p = sz")
    case True
    then show ?thesis
      unfolding ring_write_sample_def using assms(1-4,7,8)
      by (simp add: rd wr Let_def)
  next
    case False
    with assms(9) have "Suc p < sz" by simp
    then show ?thesis
      unfolding ring_write_sample_def using assms(1-4,7,8)
      by (simp add: rd wr Let_def)
  qed
qed

lemma mod_distinct:
  fixes w :: nat
  assumes "k < j" and "j < sz"
  shows "(w + k) mod sz \<noteq> (w + j) mod sz"
proof
  assume "(w + k) mod sz = (w + j) mod sz"
  then have "(w + j) mod sz = (w + k) mod sz" by simp
  moreover have "w + k \<le> w + j" using assms by simp
  ultimately have "sz dvd (w + j) - (w + k)" by (simp add: mod_eq_dvd_iff_nat)
  then have "sz dvd j - k" by simp
  moreover have "0 < j - k" "j - k < sz" using assms by simp_all
  ultimately show False using nat_dvd_not_less by blast
qed

lemma ring_write_loop:
  fixes x :: "('d, 'f, 'e, 'h) mp3codec"
  assumes rl: "output_ring_left x = Some rl" and rr: "output_ring_right x = Some rr"
    and dl: "decode_pcm_left x = Some dl" and dr: "decode_pcm_right x = Some dr"
    and sz: "ring_size x = int sz" "length rl = sz" "length rr = sz"
    and wp: "ring_write_pos x = int w" "w < sz"
    and n: "n \<le> length dl" "n \<le> length dr"
  shows "\<exists>rl' rr'.
           for_loop 0 (int n) (ring_write_sample E) x =
             Some (x\<lparr>output_ring_left := Some rl', output_ring_right := Some rr',
                     ring_write_pos := int ((w + n) mod sz)\<rparr>) \<and>
           length rl' = sz \<and> length rr' = sz \<and>
           (n \<le> sz \<longrightarrow>
              (\<forall>k<n. rl' ! ((w + k) mod sz) = short_to_float E (dl ! k) \<and>
                     rr' ! ((w + k) mod sz) = short_to_float E (dr ! k)))"
proof -
  let ?I = "\<lambda>j t. \<exists>a b.
      t = x\<lparr>output_ring_left := Some a, output_ring_right := Some b,
            ring_write_pos := int ((w + j) mod sz)\<rparr> \<and>
      length a = sz \<and> length b = sz \<and>
      (j \<le> sz \<longrightarrow>
         (\<forall>k<j. a ! ((w + k) mod sz) = short_to_float E (dl ! k) \<and>
                b ! ((w + k) mod sz) = short_to_float E (dr ! k)))"
  have "\<exists>s'. for_loop 0 (int n) (ring_write_sample E) x = Some s' \<and> ?I n s'"
  proof (rule for_loop_nat [where I = ?I])
    show "?I 0 x"
      using rl rr wp sz by (intro exI [of _ rl] exI [of _ rr]) simp
  next
    fix j t assume j: "j < n" and I: "?I j t"
    then obtain a b where
      t: "t = x\<lparr>output_ring_left := Some a, output_ring_right := Some b,
                ring_write_pos := int ((w + j) mod sz)\<rparr>"
      and len: "length a = sz" "length b = sz"
      and c: "j \<le> sz \<longrightarrow>
         (\<forall>k<j. a ! ((w + k) mod sz) = short_to_float E (dl ! k) \<and>
                b ! ((w + k) mod sz) = short_to_float E (dr ! k))"
      by blast
    let ?p = "(w + j) mod sz"
    have p: "?p < sz" using wp by simp
    have jd: "j < length dl" "j < length dr" using j n by simp_all
    let ?a = "a[?p := short_to_float E (dl ! j)]"
    let ?b = "b[?p := short_to_float E (dr ! j)]"
    have step: "ring_write_sample E (int j) t =
           Some (t\<lparr>output_ring_left := Some ?a, output_ring_right := Some ?b,
                   ring_write_pos := int (Suc ?p mod sz)\<rparr>)"
      by (rule ring_write_step [OF _ _ _ _ jd _ _ p len]) (simp_all add: t dl dr sz)
    have adv: "Suc ?p mod sz = (w + Suc j) mod sz"
      by (simp add: mod_Suc_eq)
    have content: "\<forall>k<Suc j. ?a ! ((w + k) mod sz) = short_to_float E (dl ! k) \<and>
                ?b ! ((w + k) mod sz) = short_to_float E (dr ! k)" if js: "Suc j \<le> sz"
    proof (intro allI impI)
      fix k assume k: "k < Suc j"
      show "?a ! ((w + k) mod sz) = short_to_float E (dl ! k) \<and>
            ?b ! ((w + k) mod sz) = short_to_float E (dr ! k)"
      proof (cases "k = j")
        case True
        then show ?thesis using p len by simp
      next
        case False
        with k have kj: "k < j" by simp
        have "(w + k) mod sz \<noteq> ?p" using mod_distinct [OF kj, of sz w] js by simp
        moreover have "j \<le> sz" using js by simp
        ultimately show ?thesis using c kj by simp
      qed
    qed
    have "?I (Suc j) (t\<lparr>output_ring_left := Some ?a, output_ring_right := Some ?b,
                   ring_write_pos := int (Suc ?p mod sz)\<rparr>)"
      by (intro exI [of _ ?a] exI [of _ ?b]) (use content len in \<open>simp add: t adv\<close>)
    with step show "\<exists>t'. ring_write_sample E (int j) t = Some t' \<and> ?I (Suc j) t'"
      by blast
  qed
  then show ?thesis by blast
qed

lemma seg_update0:
  assumes "length ys = j" and "j < length a"
  shows "(ys @ drop j a)[j := v] = (ys @ [v]) @ drop (Suc j) a"
  using seg_update [of ys j 0 a v] assms by simp

lemma ring_read_sample_gate:
  "ring_read_sample E i (x, o0, o1) =
     (if read_gate x then do {
           rl \<leftarrow> output_ring_left x;
           l \<leftarrow> array_read rl (ring_read_pos x);
           o0 \<leftarrow> array_write o0 i (f_mul_d E l (output_gain x));
           rr \<leftarrow> output_ring_right x;
           r \<leftarrow> array_read rr (ring_read_pos x);
           o1 \<leftarrow> array_write o1 i (f_mul_d E r (output_gain x));
           Some (if ring_read_pos x + 1 \<ge> ring_size x then x\<lparr>ring_read_pos := 0\<rparr>
                 else x\<lparr>ring_read_pos := ring_read_pos x + 1\<rparr>, o0, o1)
         } else do {
           o0 \<leftarrow> array_write o0 i (d_zero E);
           o1 \<leftarrow> array_write o1 i (d_zero E);
           Some (x, o0, o1)
         })"
  by (simp add: ring_read_sample_def read_gate_def ring_available_def Let_def)

lemma ring_read_emit:
  fixes t :: "('d, 'f, 'e, 'h) mp3codec"
  assumes "read_gate t"
    and "output_ring_left t = Some a" and "output_ring_right t = Some b"
    and "ring_read_pos t = int p" and "ring_size t = int sz"
    and "p < sz" and "length a = sz" and "length b = sz"
    and "j < length o0" and "j < length o1"
  shows "ring_read_sample E (int j) (t, o0, o1) =
           Some (t\<lparr>ring_read_pos := int (Suc p mod sz)\<rparr>,
                 o0[j := f_mul_d E (a ! p) (output_gain t)],
                 o1[j := f_mul_d E (b ! p) (output_gain t)])"
proof -
  have rd: "array_read a (int p) = Some (a ! p)" "array_read b (int p) = Some (b ! p)"
    using assms by (simp_all add: array_read_nat)
  have wr: "array_write o0 (int j) v = Some (o0[j := v])"
    "array_write o1 (int j) v = Some (o1[j := v])" for v
    using assms by (simp_all add: array_write_nat)
  show ?thesis
  proof (cases "Suc p = sz")
    case True
    then show ?thesis
      unfolding ring_read_sample_gate using assms(1-5)
      by (simp add: rd wr)
  next
    case False
    with assms(6) have "Suc p < sz" by simp
    then show ?thesis
      unfolding ring_read_sample_gate using assms(1-5)
      by (simp add: rd wr)
  qed
qed

lemma ring_read_hold:
  fixes t :: "('d, 'f, 'e, 'h) mp3codec"
  assumes "\<not> read_gate t"
    and "j < length o0" and "j < length o1"
  shows "ring_read_sample E (int j) (t, o0, o1) =
           Some (t, o0[j := d_zero E], o1[j := d_zero E])"
proof -
  have wr: "array_write o0 (int j) v = Some (o0[j := v])"
    "array_write o1 (int j) v = Some (o1[j := v])" for v
    using assms by (simp_all add: array_write_nat)
  show ?thesis
    unfolding ring_read_sample_gate using assms(1)
    by (simp add: wr)
qed

lemma ring_read_total:
  fixes x :: "('d, 'f, 'e, 'h) mp3codec"
  assumes rl: "output_ring_left x = Some rl" and rr: "output_ring_right x = Some rr"
    and sz: "ring_size x = int sz" "length rl = sz" "length rr = sz"
    and rp: "ring_read_pos x = int r" "r < sz"
    and n: "n \<le> length o0" "n \<le> length o1"
  shows "\<exists>p a b.
           for_loop 0 (int n) (ring_read_sample E) (x, o0, o1) =
             Some (x\<lparr>ring_read_pos := int p\<rparr>, a, b) \<and>
           p < sz \<and> length a = length o0 \<and> length b = length o1"
proof -
  let ?I = "\<lambda>j s. \<exists>p a b. s = (x\<lparr>ring_read_pos := int p\<rparr>, a, b) \<and>
      p < sz \<and> length a = length o0 \<and> length b = length o1"
  have "\<exists>s'. for_loop 0 (int n) (ring_read_sample E) (x, o0, o1) = Some s' \<and> ?I n s'"
  proof (rule for_loop_nat [where I = ?I])
    show "?I 0 (x, o0, o1)"
      using rp by (intro exI [of _ r] exI [of _ o0] exI [of _ o1]) simp
  next
    fix j :: nat and s :: "('d, 'f, 'e, 'h) mp3codec \<times> 'd list \<times> 'd list"
    assume j: "j < n" and I: "?I j s"
    then obtain p a b where s: "s = (x\<lparr>ring_read_pos := int p\<rparr>, a, b)"
      and p: "p < sz" and len: "length a = length o0" "length b = length o1"
      by blast
    let ?t = "x\<lparr>ring_read_pos := int p\<rparr>"
    have ja: "j < length a" "j < length b" using j n len by simp_all
    show "\<exists>s'. ring_read_sample E (int j) s = Some s' \<and> ?I (Suc j) s'"
    proof (cases "read_gate ?t")
      case True
      have "ring_read_sample E (int j) (?t, a, b) =
           Some (?t\<lparr>ring_read_pos := int (Suc p mod sz)\<rparr>,
                 a[j := f_mul_d E (rl ! p) (output_gain ?t)],
                 b[j := f_mul_d E (rr ! p) (output_gain ?t)])"
        by (rule ring_read_emit [OF True _ _ _ _ p sz(2,3) ja]) (simp_all add: rl rr sz)
      moreover have "?I (Suc j) (x\<lparr>ring_read_pos := int (Suc p mod sz)\<rparr>,
                 a[j := f_mul_d E (rl ! p) (output_gain ?t)],
                 b[j := f_mul_d E (rr ! p) (output_gain ?t)])"
        by (rule exI [of _ "Suc p mod sz"], rule exI [of _ "a[j := f_mul_d E (rl ! p) (output_gain ?t)]"],
            rule exI [of _ "b[j := f_mul_d E (rr ! p) (output_gain ?t)]"]) (use p len in simp)
      ultimately show ?thesis unfolding s by simp
    next
      case False
      have "ring_read_sample E (int j) (?t, a, b) = Some (?t, a[j := d_zero E], b[j := d_zero E])"
        by (rule ring_read_hold [OF False ja])
      moreover have "?I (Suc j) (?t, a[j := d_zero E], b[j := d_zero E])"
        by (rule exI [of _ p], rule exI [of _ "a[j := d_zero E]"],
            rule exI [of _ "b[j := d_zero E]"]) (use p len in simp)
      ultimately show ?thesis unfolding s by simp
    qed
  qed
  then show ?thesis by blast
qed

lemma ring_read_loop:
  fixes x :: "('d, 'f, 'e, 'h) mp3codec"
  assumes dcc: "decode_delay_compensation x = 0"
    and rl: "output_ring_left x = Some rl" and rr: "output_ring_right x = Some rr"
    and sz: "ring_size x = int sz" "length rl = sz" "length rr = sz"
    and rp: "ring_read_pos x = int r" "r < sz"
    and n: "n \<le> length o0" "n \<le> length o1"
  shows "for_loop 0 (int n) (ring_read_sample E) (x, o0, o1) =
           Some (x\<lparr>ring_read_pos := int ((r + n) mod sz)\<rparr>,
                 map (\<lambda>k. f_mul_d E (rl ! ((r + k) mod sz)) (output_gain x)) [0..<n] @ drop n o0,
                 map (\<lambda>k. f_mul_d E (rr ! ((r + k) mod sz)) (output_gain x)) [0..<n] @ drop n o1)"
proof -
  let ?A = "\<lambda>j. map (\<lambda>k. f_mul_d E (rl ! ((r + k) mod sz)) (output_gain x)) [0..<j]"
  let ?B = "\<lambda>j. map (\<lambda>k. f_mul_d E (rr ! ((r + k) mod sz)) (output_gain x)) [0..<j]"
  let ?I = "\<lambda>j s. s = (x\<lparr>ring_read_pos := int ((r + j) mod sz)\<rparr>,
                        ?A j @ drop j o0, ?B j @ drop j o1)"
  have "\<exists>s'. for_loop 0 (int n) (ring_read_sample E) (x, o0, o1) = Some s' \<and> ?I n s'"
  proof (rule for_loop_nat [where I = ?I])
    show "?I 0 (x, o0, o1)" using rp by simp
  next
    fix j :: nat and s :: "('d, 'f, 'e, 'h) mp3codec \<times> 'd list \<times> 'd list"
    assume j: "j < n" and s: "?I j s"
    let ?p = "(r + j) mod sz"
    let ?t = "x\<lparr>ring_read_pos := int ?p\<rparr>"
    have p: "?p < sz" using rp by simp
    have jo: "j < length o0" "j < length o1" using j n by simp_all
    have ja: "j < length (?A j @ drop j o0)" "j < length (?B j @ drop j o1)"
      using jo by simp_all
    have "ring_read_sample E (int j) (?t, ?A j @ drop j o0, ?B j @ drop j o1) =
           Some (?t\<lparr>ring_read_pos := int (Suc ?p mod sz)\<rparr>,
                 (?A j @ drop j o0)[j := f_mul_d E (rl ! ?p) (output_gain ?t)],
                 (?B j @ drop j o1)[j := f_mul_d E (rr ! ?p) (output_gain ?t)])"
      by (rule ring_read_emit [OF _ _ _ _ _ p sz(2,3) ja]) (simp_all add: rl rr sz dcc read_gate_def)
    moreover have "Suc ?p mod sz = (r + Suc j) mod sz" by (simp add: mod_Suc_eq)
    moreover have "(?A j @ drop j o0)[j := v] = (?A j @ [v]) @ drop (Suc j) o0" for v
      by (rule seg_update0) (use jo in simp_all)
    moreover have "(?B j @ drop j o1)[j := v] = (?B j @ [v]) @ drop (Suc j) o1" for v
      by (rule seg_update0) (use jo in simp_all)
    ultimately show "\<exists>s'. ring_read_sample E (int j) s = Some s' \<and> ?I (Suc j) s'"
      unfolding s by simp
  qed
  then show ?thesis by simp
qed

lemma convert_loop:
  fixes x :: "('d, 'f, 'e, 'h) mp3codec"
  assumes bl: "encode_buffer_left x = Some bl" and br: "encode_buffer_right x = Some br"
    and len: "n \<le> length bl" "n \<le> length br"
  shows "for_loop 0 (int n) (convert_sample E x) (replicate n 0, replicate n 0) =
           Some (map (float_to_short E) (take n bl), map (float_to_short E) (take n br))"
proof -
  let ?Z = "replicate n (0::int)"
  let ?I = "\<lambda>j s. s = (map (float_to_short E) (take j bl) @ drop j ?Z,
                        map (float_to_short E) (take j br) @ drop j ?Z)"
  have "\<exists>s'. for_loop 0 (int n) (convert_sample E x) (?Z, ?Z) = Some s' \<and> ?I n s'"
  proof (rule for_loop_nat [where I = ?I])
    show "?I 0 (?Z, ?Z)" by simp
  next
    fix j :: nat and s :: "int list \<times> int list"
    assume j: "j < n" and s: "?I j s"
    let ?L = "map (float_to_short E) (take j bl)"
    let ?R = "map (float_to_short E) (take j br)"
    have jb: "j < length bl" "j < length br" using j len by simp_all
    have rd: "array_read bl (int j) = Some (bl ! j)" "array_read br (int j) = Some (br ! j)"
      using jb by (simp_all add: array_read_nat)
    have wl: "array_write (?L @ drop j ?Z) (int j) v = Some ((?L @ drop j ?Z)[j := v])" for v
      by (rule array_write_nat) (use j jb in simp)
    have wr: "array_write (?R @ drop j ?Z) (int j) v = Some ((?R @ drop j ?Z)[j := v])" for v
      by (rule array_write_nat) (use j jb in simp)
    have ul: "(?L @ drop j ?Z)[j := v] = (?L @ [v]) @ drop (Suc j) ?Z" for v
      by (rule seg_update0) (use j jb in simp_all)
    have ur: "(?R @ drop j ?Z)[j := v] = (?R @ [v]) @ drop (Suc j) ?Z" for v
      by (rule seg_update0) (use j jb in simp_all)
    show "\<exists>s'. convert_sample E x (int j) s = Some s' \<and> ?I (Suc j) s'"
      unfolding s convert_sample_def
      by (simp add: bl br rd wl wr ul ur take_Suc_conv_app_nth jb del: replicate.simps drop_replicate)
  qed
  then show ?thesis by simp
qed

section \<open>Facts about accumulating, decoding and encoding\<close>

lemma decoder_readyE:
  assumes "decoder_ready x"
  obtains h acc dl dr rl rr where
    "hip x = Some h"
    "mp3_accumulator x = Some acc" "int (length acc) = DECODE_BUFFER_SIZE"
    "0 \<le> mp3_accumulator_fill x" "mp3_accumulator_fill x < DECODE_BUFFER_SIZE"
    "decode_pcm_left x = Some dl" "int (length dl) = PCM_BUFFER_SIZE"
    "decode_pcm_right x = Some dr" "int (length dr) = PCM_BUFFER_SIZE"
    "ring_size x = MP3_FRAME_SIZE * 4"
    "output_ring_left x = Some rl" "int (length rl) = MP3_FRAME_SIZE * 4"
    "output_ring_right x = Some rr" "int (length rr) = MP3_FRAME_SIZE * 4"
    "0 \<le> ring_write_pos x" "ring_write_pos x < MP3_FRAME_SIZE * 4"
    "0 \<le> ring_read_pos x" "ring_read_pos x < MP3_FRAME_SIZE * 4"
  using assms unfolding decoder_ready_def allocated_def
  by (auto split: option.splits)

lemma decoder_readyI:
  assumes "hip x = Some h"
    "mp3_accumulator x = Some acc" "int (length acc) = DECODE_BUFFER_SIZE"
    "0 \<le> mp3_accumulator_fill x" "mp3_accumulator_fill x < DECODE_BUFFER_SIZE"
    "decode_pcm_left x = Some dl" "int (length dl) = PCM_BUFFER_SIZE"
    "decode_pcm_right x = Some dr" "int (length dr) = PCM_BUFFER_SIZE"
    "ring_size x = MP3_FRAME_SIZE * 4"
    "output_ring_left x = Some rl" "int (length rl) = MP3_FRAME_SIZE * 4"
    "output_ring_right x = Some rr" "int (length rr) = MP3_FRAME_SIZE * 4"
    "0 \<le> ring_write_pos x" "ring_write_pos x < MP3_FRAME_SIZE * 4"
    "0 \<le> ring_read_pos x" "ring_read_pos x < MP3_FRAME_SIZE * 4"
  shows "decoder_ready x"
  using assms unfolding decoder_ready_def allocated_def by simp

lemma front_unchanged_refl: "front_unchanged x x"
  by (simp add: front_unchanged_def)

lemma front_unchanged_trans:
  "front_unchanged x y \<Longrightarrow> front_unchanged y z \<Longrightarrow> front_unchanged x z"
  by (simp add: front_unchanged_def)

lemma accumulate_fits:
  fixes x :: "('d, 'f, 'e, 'h) mp3codec"
  assumes "mp3_accumulator x = Some acc" and "int (length acc) = DECODE_BUFFER_SIZE"
    and "mp3_accumulator_fill x = int k" and "m \<le> length buf"
    and "int k + int m < DECODE_BUFFER_SIZE"
  shows "accumulate_chunk x buf (int m) =
           Some (x\<lparr>mp3_accumulator := Some (take k acc @ take m buf @ drop (k + m) acc),
                   mp3_accumulator_fill := int (k + m)\<rparr>)"
  using assms by (simp add: accumulate_chunk_def memcpy_def Let_def nat_add_distrib)

lemma accumulate_overflow:
  "mp3_accumulator_fill x + n \<ge> DECODE_BUFFER_SIZE \<Longrightarrow> accumulate_chunk x buf n = Some x"
  by (simp add: accumulate_chunk_def)

lemma accumulate_ready:
  fixes x :: "('d, 'f, 'e, 'h) mp3codec"
  assumes "decoder_ready x" and "0 < n" and "n \<le> int (length buf)"
  shows "\<exists>x'. accumulate_chunk x buf n = Some x' \<and> decoder_ready x' \<and> front_unchanged x x'"
proof (cases "mp3_accumulator_fill x + n < DECODE_BUFFER_SIZE")
  case False
  then show ?thesis using assms(1) by (simp add: accumulate_overflow front_unchanged_refl)
next
  case True
  from assms(1) obtain h acc dl dr rl rr where r:
    "hip x = Some h"
    "mp3_accumulator x = Some acc" "int (length acc) = DECODE_BUFFER_SIZE"
    "0 \<le> mp3_accumulator_fill x" "mp3_accumulator_fill x < DECODE_BUFFER_SIZE"
    "decode_pcm_left x = Some dl" "int (length dl) = PCM_BUFFER_SIZE"
    "decode_pcm_right x = Some dr" "int (length dr) = PCM_BUFFER_SIZE"
    "ring_size x = MP3_FRAME_SIZE * 4"
    "output_ring_left x = Some rl" "int (length rl) = MP3_FRAME_SIZE * 4"
    "output_ring_right x = Some rr" "int (length rr) = MP3_FRAME_SIZE * 4"
    "0 \<le> ring_write_pos x" "ring_write_pos x < MP3_FRAME_SIZE * 4"
    "0 \<le> ring_read_pos x" "ring_read_pos x < MP3_FRAME_SIZE * 4"
    by (rule decoder_readyE)
  define k where "k = nat (mp3_accumulator_fill x)"
  define m where "m = nat n"
  have km: "mp3_accumulator_fill x = int k" "n = int m" "m \<le> length buf"
    using r(4) assms(2,3) by (simp_all add: k_def m_def)
  have lt: "int k + int m < DECODE_BUFFER_SIZE" using True km by simp
  let ?acc = "take k acc @ take m buf @ drop (k + m) acc"
  let ?x = "x\<lparr>mp3_accumulator := Some ?acc, mp3_accumulator_fill := int (k + m)\<rparr>"
  have run: "accumulate_chunk x buf n = Some ?x"
    unfolding km(2) by (rule accumulate_fits [OF r(2,3) km(1,3) lt])
  have len: "int (length ?acc) = DECODE_BUFFER_SIZE"
    using r(3) lt km(3) by (simp add: DECODE_BUFFER_SIZE_def)
  have "decoder_ready ?x"
    by (rule decoder_readyI [where h = h and acc = ?acc and dl = dl and dr = dr and rl = rl and rr = rr])
       (use r len lt in simp_all)
  then show ?thesis
    unfolding run by (simp add: front_unchanged_def)
qed

lemma store_prefix_length:
  "length new \<le> length buf \<Longrightarrow>
     store_prefix buf new = Some (new @ drop (length new) buf) \<and>
     length (new @ drop (length new) buf) = length buf"
  by (simp add: store_prefix_def)

text \<open>The decode attempt on a ready decoder, with the result of \<^verbatim>\<open>hip_decode\<close> named.\<close>

lemma decode_step:
  fixes x :: "('d, 'f, 'e, 'h) mp3codec"
  assumes ready: "decoder_ready x" and ok: "engine_ok E"
    and h: "hip x = Some h" and acc: "mp3_accumulator x = Some acc"
    and call: "hip_decode E h (take (nat (mp3_accumulator_fill x)) acc) = (n, pl, pr, h')"
  shows "\<exists>x'. decode_accumulated E x = Some x' \<and> decoder_ready x' \<and> front_unchanged x x' \<and>
           hip x' = Some h' \<and> mp3_accumulator x' = Some acc \<and>
           mp3_accumulator_fill x' = (if n = 0 then mp3_accumulator_fill x else 0) \<and>
           ring_read_pos x' = ring_read_pos x"
proof -
  from ready obtain h0 acc0 dl dr rl rr where r:
    "hip x = Some h0"
    "mp3_accumulator x = Some acc0" "int (length acc0) = DECODE_BUFFER_SIZE"
    "0 \<le> mp3_accumulator_fill x" "mp3_accumulator_fill x < DECODE_BUFFER_SIZE"
    "decode_pcm_left x = Some dl" "int (length dl) = PCM_BUFFER_SIZE"
    "decode_pcm_right x = Some dr" "int (length dr) = PCM_BUFFER_SIZE"
    "ring_size x = MP3_FRAME_SIZE * 4"
    "output_ring_left x = Some rl" "int (length rl) = MP3_FRAME_SIZE * 4"
    "output_ring_right x = Some rr" "int (length rr) = MP3_FRAME_SIZE * 4"
    "0 \<le> ring_write_pos x" "ring_write_pos x < MP3_FRAME_SIZE * 4"
    "0 \<le> ring_read_pos x" "ring_read_pos x < MP3_FRAME_SIZE * 4"
    by (rule decoder_readyE)
  have lacc: "int (length acc) = DECODE_BUFFER_SIZE" using r(2,3) acc by simp
  from ok call have bounds: "n \<le> PCM_BUFFER_SIZE" "int (length pl) \<le> PCM_BUFFER_SIZE"
    "int (length pr) \<le> PCM_BUFFER_SIZE"
    unfolding engine_ok_def
    by (metis fst_conv snd_conv)+
  let ?dl = "pl @ drop (length pl) dl" and ?dr = "pr @ drop (length pr) dr"
  have sl: "store_prefix dl pl = Some ?dl" "length ?dl = length dl"
    using store_prefix_length [of pl dl] bounds(2) r(7) by simp_all
  have sr: "store_prefix dr pr = Some ?dr" "length ?dr = length dr"
    using store_prefix_length [of pr dr] bounds(3) r(9) by simp_all
  let ?y = "x\<lparr>hip := Some h', decode_pcm_left := Some ?dl, decode_pcm_right := Some ?dr\<rparr>"
  have unfold: "decode_accumulated E x =
     (if n > 0 then do {
        x \<leftarrow> for_loop 0 n (ring_write_sample E) ?y;
        Some (x\<lparr>mp3_accumulator_fill := 0\<rparr>)
      } else if n = 0 then Some ?y
      else Some (?y\<lparr>mp3_accumulator_fill := 0\<rparr>))"
    unfolding decode_accumulated_def
    using h acc r(4,5) lacc r(6,8) call sl(1) sr(1)
    by (simp add: Let_def)
  have z: "(0::int) < DECODE_BUFFER_SIZE" by (simp add: DECODE_BUFFER_SIZE_def)
  show ?thesis
  proof (cases "n > 0")
    case False
    let ?z = "if n = 0 then ?y else ?y\<lparr>mp3_accumulator_fill := 0\<rparr>"
    have run: "decode_accumulated E x = Some ?z" unfolding unfold using False by simp
    have "decoder_ready ?z"
      by (rule decoder_readyI [where h = h' and acc = acc and dl = ?dl and dr = ?dr
            and rl = rl and rr = rr])
         (use r acc lacc sl(2) sr(2) z in simp_all)
    then show ?thesis
      unfolding run using acc by (simp add: front_unchanged_def)
  next
    case True
    define sz where "sz = nat (MP3_FRAME_SIZE * 4)"
    define w where "w = nat (ring_write_pos x)"
    define m where "m = nat n"
    have szp: "ring_size x = int sz" "length rl = sz" "length rr = sz"
      using r(10,12,14) by (simp_all add: sz_def MP3_FRAME_SIZE_def)
    have isz: "int sz = MP3_FRAME_SIZE * 4" by (simp add: sz_def MP3_FRAME_SIZE_def)
    have wpn: "ring_write_pos x = int w" "w < sz"
      using r(15,16) by (simp_all add: w_def sz_def)
    have mn: "n = int m" "m \<le> length ?dl" "m \<le> length ?dr"
      using True bounds(1) sl(2) sr(2) r(7,9) by (simp_all add: m_def)
    from ring_write_loop [of ?y rl rr ?dl ?dr sz w m E] obtain rl' rr' where
      loop: "for_loop 0 (int m) (ring_write_sample E) ?y =
             Some (?y\<lparr>output_ring_left := Some rl', output_ring_right := Some rr',
                     ring_write_pos := int ((w + m) mod sz)\<rparr>)"
      and len': "length rl' = sz" "length rr' = sz"
      using r(11,13) szp wpn mn(2,3) by auto
    let ?z = "?y\<lparr>output_ring_left := Some rl', output_ring_right := Some rr',
                     ring_write_pos := int ((w + m) mod sz), mp3_accumulator_fill := 0\<rparr>"
    have run: "decode_accumulated E x = Some ?z"
      unfolding unfold using True loop by (simp add: mn(1))
    have "(w + m) mod sz < sz" using wpn(2) by simp
    then have lt: "int ((w + m) mod sz) < MP3_FRAME_SIZE * 4"
      unfolding isz [symmetric] by (simp only: of_nat_less_iff)
    have "decoder_ready ?z"
      by (rule decoder_readyI [where h = h' and acc = acc and dl = ?dl and dr = ?dr
            and rl = rl' and rr = rr'])
         (use r acc lacc sl(2) sr(2) z len' lt isz in simp_all)
    then show ?thesis
      unfolding run using acc True by (simp add: front_unchanged_def)
  qed
qed

lemma encoder_readyE:
  assumes "encoder_ready x"
  obtains g bl br where
    "initialized x = 1" "gfp x = Some g"
    "encode_buffer_left x = Some bl" "int (length bl) = PCM_BUFFER_SIZE"
    "encode_buffer_right x = Some br" "int (length br) = PCM_BUFFER_SIZE"
  using assms unfolding encoder_ready_def allocated_def
  by (auto split: option.splits)

lemma encode_frame_unfold:
  fixes x :: "('d, 'f, 'e, 'h) mp3codec"
  assumes g: "gfp x = Some g"
    and bl: "encode_buffer_left x = Some bl" "int (length bl) = PCM_BUFFER_SIZE"
    and br: "encode_buffer_right x = Some br" "int (length br) = PCM_BUFFER_SIZE"
    and ok: "engine_ok E"
    and call: "lame_encode_buffer E g (frame_pcm E bl) (frame_pcm E br) = (n, buf, g')"
  shows "encode_frame E x =
           (if n > 0 then
              Option.bind (accumulate_chunk (x\<lparr>gfp := Some g', encode_buffer_fill := 0\<rparr>) buf n)
                (decode_accumulated E)
            else Some (x\<lparr>gfp := Some g', encode_buffer_fill := 0\<rparr>))"
proof -
  have len: "nat MP3_FRAME_SIZE \<le> length bl" "nat MP3_FRAME_SIZE \<le> length br"
    using bl(2) br(2) by (simp_all add: PCM_BUFFER_SIZE_def MP3_FRAME_SIZE_def)
  have conv: "for_loop 0 MP3_FRAME_SIZE (convert_sample E x)
           (replicate (nat MP3_FRAME_SIZE) 0, replicate (nat MP3_FRAME_SIZE) 0) =
         Some (frame_pcm E bl, frame_pcm E br)"
    using convert_loop [OF bl(1) br(1) len, of E]
    by (simp add: frame_pcm_def MP3_FRAME_SIZE_def)
  from ok call have "int (length buf) \<le> MP3_BUFFER_SIZE"
    unfolding engine_ok_def by (metis fst_conv snd_conv)
  then show ?thesis
    unfolding encode_frame_def conv using g call
    by (simp add: Let_def)
qed

lemma encode_step:
  fixes x :: "('d, 'f, 'e, 'h) mp3codec"
  assumes g: "gfp x = Some g"
    and bl: "encode_buffer_left x = Some bl" "int (length bl) = PCM_BUFFER_SIZE"
    and br: "encode_buffer_right x = Some br" "int (length br) = PCM_BUFFER_SIZE"
    and ready: "decoder_ready x" and ok: "engine_ok E"
    and call: "lame_encode_buffer E g (frame_pcm E bl) (frame_pcm E br) = (n, buf, g')"
  shows "\<exists>x'. encode_frame E x = Some x' \<and> decoder_ready x' \<and>
           front_unchanged (x\<lparr>gfp := Some g', encode_buffer_fill := 0\<rparr>) x'"
proof -
  let ?y = "x\<lparr>gfp := Some g', encode_buffer_fill := 0\<rparr>"
  note unfold = encode_frame_unfold [OF g bl br ok call]
  have ry: "decoder_ready ?y" using ready by (auto simp: decoder_ready_def)
  show ?thesis
  proof (cases "n > 0")
    case False
    then show ?thesis unfolding unfold using ry by (simp add: front_unchanged_refl)
  next
    case True
    from ok call have "n \<le> int (length buf)"
      unfolding engine_ok_def by (metis fst_conv snd_conv)
    from accumulate_ready [OF ry True this] obtain y' where
      a: "accumulate_chunk ?y buf n = Some y'" and ry': "decoder_ready y'"
      and f1: "front_unchanged ?y y'" by blast
    from ry' obtain h acc where h: "hip y' = Some h" and acc: "mp3_accumulator y' = Some acc"
      by (rule decoder_readyE)
    obtain m pl pr h' where
      d: "hip_decode E h (take (nat (mp3_accumulator_fill y')) acc) = (m, pl, pr, h')"
      by (cases "hip_decode E h (take (nat (mp3_accumulator_fill y')) acc)") auto
    from decode_step [OF ry' ok h acc d] obtain x' where
      "decode_accumulated E y' = Some x'" "decoder_ready x'" "front_unchanged y' x'"
      by blast
    with a f1 True show ?thesis
      unfolding unfold by (auto intro: front_unchanged_trans)
  qed
qed

lemma engine_ok_stub: "engine_ok (stub_env a)"
  by (simp add: engine_ok_def stub_env_def MP3_BUFFER_SIZE_def PCM_BUFFER_SIZE_def
      MP3_FRAME_SIZE_def)

lemma decoder_ready_stub:
  assumes "0 \<le> f" "f < 16384" "0 \<le> w" "w < 4608" "0 \<le> r" "r < 4608"
    "length acc = 16384" "length dl = 4608" "length dr = 4608"
  shows "decoder_ready (ready_object\<lparr>mp3_accumulator := Some acc, mp3_accumulator_fill := f,
            decode_pcm_left := Some dl, decode_pcm_right := Some dr,
            ring_write_pos := w, ring_read_pos := r\<rparr>)"
  using assms
  by (simp add: decoder_ready_def allocated_def ready_object_def stub_object_def
      DECODE_BUFFER_SIZE_def PCM_BUFFER_SIZE_def MP3_FRAME_SIZE_def)

section \<open>Facts about frames\<close>

lemma chunks_short: "length xs < n \<Longrightarrow> chunks n xs = []"
  by (subst chunks.simps) simp

lemma leftover_short: "length xs < n \<Longrightarrow> leftover n xs = xs"
  by (subst leftover.simps) simp

lemma chunks_full: "0 < n \<Longrightarrow> length a = n \<Longrightarrow> chunks n (a @ b) = a # chunks n b"
  by (subst chunks.simps) simp

lemma leftover_full: "0 < n \<Longrightarrow> length a = n \<Longrightarrow> leftover n (a @ b) = leftover n b"
  by (subst leftover.simps) simp

lemma chunks_unfold:
  "0 < n \<Longrightarrow> n \<le> length xs \<Longrightarrow> chunks n xs = take n xs # chunks n (drop n xs)"
  by (subst chunks.simps) simp

lemma leftover_unfold:
  "0 < n \<Longrightarrow> n \<le> length xs \<Longrightarrow> leftover n xs = leftover n (drop n xs)"
  by (subst leftover.simps) simp

lemma chunks_append:
  "0 < n \<Longrightarrow> chunks n (xs @ ys) = chunks n xs @ chunks n (leftover n xs @ ys)"
proof (induction n xs rule: chunks.induct)
  case (1 n xs)
  show ?case
  proof (cases "length xs < n")
    case True
    then show ?thesis by (simp add: chunks_short leftover_short)
  next
    case False
    with "1.prems" have le: "n \<le> length xs" and nz: "\<not> (n = 0 \<or> length xs < n)" by simp_all
    have "chunks n (xs @ ys) = chunks n (take n xs @ (drop n xs @ ys))"
      by (simp only: append_assoc [symmetric] append_take_drop_id)
    also have "\<dots> = take n xs # chunks n (drop n xs @ ys)"
      using le "1.prems" by (intro chunks_full) simp_all
    also have "chunks n (drop n xs @ ys)
                 = chunks n (drop n xs) @ chunks n (leftover n (drop n xs) @ ys)"
      by (rule "1.IH" [OF nz "1.prems"])
    finally show ?thesis
      using le "1.prems" by (simp add: chunks_unfold [of n xs] leftover_unfold [of n xs])
  qed
qed

lemma leftover_append:
  "0 < n \<Longrightarrow> leftover n (xs @ ys) = leftover n (leftover n xs @ ys)"
proof (induction n xs rule: leftover.induct)
  case (1 n xs)
  show ?case
  proof (cases "length xs < n")
    case True
    then show ?thesis by (simp add: leftover_short)
  next
    case False
    with "1.prems" have le: "n \<le> length xs" and nz: "\<not> (n = 0 \<or> length xs < n)" by simp_all
    have "leftover n (xs @ ys) = leftover n (take n xs @ (drop n xs @ ys))"
      by (simp only: append_assoc [symmetric] append_take_drop_id)
    also have "\<dots> = leftover n (drop n xs @ ys)"
      using le "1.prems" by (intro leftover_full) simp_all
    also have "\<dots> = leftover n (leftover n (drop n xs) @ ys)"
      by (rule "1.IH" [OF nz "1.prems"])
    finally show ?thesis
      using le "1.prems" by (simp add: leftover_unfold [of n xs])
  qed
qed

lemma length_chunks: "0 < n \<Longrightarrow> length (chunks n xs) = length xs div n"
proof (induction n xs rule: chunks.induct)
  case (1 n xs)
  show ?case
  proof (cases "length xs < n")
    case True
    then show ?thesis by (simp add: chunks_short)
  next
    case False
    with "1.prems" have le: "n \<le> length xs" and nz: "\<not> (n = 0 \<or> length xs < n)" by simp_all
    have "length (chunks n xs) = Suc (length (chunks n (drop n xs)))"
      using le "1.prems" by (simp add: chunks_unfold [of n xs])
    also have "\<dots> = Suc ((length xs - n) div n)"
      using "1.IH" [OF nz "1.prems"] by simp
    also have "\<dots> = length xs div n"
      using le "1.prems" by (simp add: le_div_geq)
    finally show ?thesis .
  qed
qed

lemma length_leftover: "0 < n \<Longrightarrow> length (leftover n xs) = length xs mod n"
proof (induction n xs rule: leftover.induct)
  case (1 n xs)
  show ?case
  proof (cases "length xs < n")
    case True
    then show ?thesis by (simp add: leftover_short)
  next
    case False
    with "1.prems" have le: "n \<le> length xs" and nz: "\<not> (n = 0 \<or> length xs < n)" by simp_all
    have "length (leftover n xs) = (length xs - n) mod n"
      using "1.IH" [OF nz "1.prems"] le "1.prems" by (simp add: leftover_unfold [of n xs])
    also have "\<dots> = length xs mod n"
      using le by (simp add: le_mod_geq)
    finally show ?thesis .
  qed
qed

lemma chunks_lengths: "0 < n \<Longrightarrow> c \<in> set (chunks n xs) \<Longrightarrow> length c = n"
proof (induction n xs rule: chunks.induct)
  case (1 n xs)
  show ?case
  proof (cases "length xs < n")
    case True
    with "1.prems" show ?thesis by (simp add: chunks_short)
  next
    case False
    with "1.prems" have le: "n \<le> length xs" and nz: "\<not> (n = 0 \<or> length xs < n)" by simp_all
    from "1.prems"(2) have "c = take n xs \<or> c \<in> set (chunks n (drop n xs))"
      using le "1.prems"(1) by (simp add: chunks_unfold [of n xs])
    then show ?thesis
      using "1.IH" [OF nz "1.prems"(1)] le by auto
  qed
qed

lemma concat_chunks: "0 < n \<Longrightarrow> concat (chunks n xs) @ leftover n xs = xs"
proof (induction n xs rule: chunks.induct)
  case (1 n xs)
  show ?case
  proof (cases "length xs < n")
    case True
    then show ?thesis by (simp add: chunks_short leftover_short)
  next
    case False
    with "1.prems" have le: "n \<le> length xs" and nz: "\<not> (n = 0 \<or> length xs < n)" by simp_all
    show ?thesis
      using "1.IH" [OF nz "1.prems"] le "1.prems"
      by (simp add: chunks_unfold [of n xs] leftover_unfold [of n xs])
  qed
qed

section \<open>Facts about the input loop and the host run\<close>

lemma input_loop_exit: "n \<le> sp \<Longrightarrow> input_loop E ins n sp x = Some x"
  by (subst input_loop.simps) simp

lemma input_loop_step:
  assumes "sp < n"
    and "c = (if n - sp > MP3_FRAME_SIZE - encode_buffer_fill x
              then MP3_FRAME_SIZE - encode_buffer_fill x else n - sp)"
  shows "input_loop E ins n sp x =
           Option.bind (for_loop 0 c (copy_sample E ins sp) x)
             (\<lambda>x1. let x2 = x1\<lparr>encode_buffer_fill := encode_buffer_fill x1 + c\<rparr>
                    in if encode_buffer_fill x2 \<ge> MP3_FRAME_SIZE then
                         (if initialized x2 = 0 \<or> gfp x2 = None \<or> hip x2 = None
                          then Some (x2\<lparr>encode_buffer_fill := 0\<rparr>)
                          else Option.bind (encode_frame E x2) (input_loop E ins n (sp + c)))
                       else input_loop E ins n (sp + c) x2)"
  by (subst input_loop.simps) (simp only: assms(1) if_True Let_def assms(2) [symmetric])

lemma encoder_feed_simps:
  "encoder_feed E g [] = g"
  "encoder_feed E g (fr # frs) =
     encoder_feed E (snd (snd (lame_encode_buffer E g (map (float_to_short E) (fst fr))
                                                    (map (float_to_short E) (snd fr))))) frs"
  "encoder_feed E g (frs @ frs') = encoder_feed E (encoder_feed E g frs) frs'"
  by (simp_all add: encoder_feed_def)

lemma full_frame_step:
  fixes x :: "('d, 'f, 'e, 'h) mp3codec"
  assumes ok: "engine_ok E" and g: "gfp x = Some g"
    and bl: "encode_buffer_left x = Some bl" "int (length bl) = PCM_BUFFER_SIZE"
    and br: "encode_buffer_right x = Some br" "int (length br) = PCM_BUFFER_SIZE"
    and init: "initialized x = 1" and ready: "decoder_ready x"
  shows "\<exists>x'. encode_frame E x = Some x' \<and> pipeline_ready x' \<and> encode_buffer_fill x' = 0 \<and>
           gfp x' = Some (encoder_feed E g [(take (nat MP3_FRAME_SIZE) bl, take (nat MP3_FRAME_SIZE) br)]) \<and>
           input_gain x' = input_gain x \<and> bypass x' = bypass x"
proof -
  obtain n buf g' where
    call: "lame_encode_buffer E g (frame_pcm E bl) (frame_pcm E br) = (n, buf, g')"
    by (cases "lame_encode_buffer E g (frame_pcm E bl) (frame_pcm E br)") auto
  from encode_step [OF g bl br ready ok call] obtain x' where
    run: "encode_frame E x = Some x'" and r: "decoder_ready x'"
    and f: "front_unchanged (x\<lparr>gfp := Some g', encode_buffer_fill := 0\<rparr>) x'" by blast
  have g': "g' = encoder_feed E g [(take (nat MP3_FRAME_SIZE) bl, take (nat MP3_FRAME_SIZE) br)]"
    using call by (simp add: encoder_feed_simps frame_pcm_def)
  from f have fields: "initialized x' = 1" "gfp x' = Some g'" "encode_buffer_fill x' = 0"
    "encode_buffer_left x' = Some bl" "encode_buffer_right x' = Some br"
    "input_gain x' = input_gain x" "bypass x' = bypass x"
    using init bl(1) br(1) by (simp_all add: front_unchanged_def)
  have "pipeline_ready x'"
    using fields r bl(2) br(2)
    by (simp add: pipeline_ready_def encoder_ready_def allocated_def MP3_FRAME_SIZE_def)
  with run fields g' show ?thesis by simp
qed

lemma stereo_frames_short:
  "length l < nat MP3_FRAME_SIZE \<Longrightarrow> stereo_frames l r = []"
  by (simp add: stereo_frames_def chunks_short)

lemma stereo_frames_full:
  assumes "length a = nat MP3_FRAME_SIZE" and "length b = nat MP3_FRAME_SIZE"
  shows "stereo_frames (a @ l) (b @ r) = (a, b) # stereo_frames l r"
  using assms by (simp add: stereo_frames_def chunks_full MP3_FRAME_SIZE_def)

lemma gain_scaled_append:
  "gain_scaled E g (xs @ ys) = gain_scaled E g xs @ gain_scaled E g ys"
  by (simp add: gain_scaled_def)

lemma input_loop_frames:
  fixes x :: "('d, 'f, 'e, 'h) mp3codec" and ins :: "'d list \<times> 'd list"
  assumes ok: "engine_ok E" and len: "length (fst ins) = n" "length (snd ins) = n"
    and ready: "pipeline_ready x" and g: "gfp x = Some g" and sp: "sp \<le> n"
  shows "\<exists>x'. input_loop E ins (int n) (int sp) x = Some x' \<and> pipeline_ready x' \<and>
      input_gain x' = input_gain x \<and> bypass x' = bypass x \<and>
      gfp x' = Some (encoder_feed E g (stereo_frames
                 (pending_left x @ gain_scaled E (input_gain x) (drop sp (fst ins)))
                 (pending_right x @ gain_scaled E (input_gain x) (drop sp (snd ins))))) \<and>
      pending_left x' = leftover (nat MP3_FRAME_SIZE)
                 (pending_left x @ gain_scaled E (input_gain x) (drop sp (fst ins))) \<and>
      pending_right x' = leftover (nat MP3_FRAME_SIZE)
                 (pending_right x @ gain_scaled E (input_gain x) (drop sp (snd ins)))"
  using ready g sp
proof (induction "n - sp" arbitrary: sp x g rule: less_induct)
  case less
  note ready = less.prems(1) and g = less.prems(2) and sp = less.prems(3)
  let ?F = "nat MP3_FRAME_SIZE"
  have F: "?F = 1152" by (simp add: MP3_FRAME_SIZE_def)
  from ready have er: "encoder_ready x" and f0: "0 \<le> encode_buffer_fill x"
    and f1: "encode_buffer_fill x < MP3_FRAME_SIZE" and dr: "decoder_ready x"
    by (simp_all add: pipeline_ready_def)
  from er obtain g0 bl br where e:
    "initialized x = 1" "gfp x = Some g0"
    "encode_buffer_left x = Some bl" "int (length bl) = PCM_BUFFER_SIZE"
    "encode_buffer_right x = Some br" "int (length br) = PCM_BUFFER_SIZE"
    by (rule encoder_readyE)
  have lb: "length bl = 4608" "length br = 4608"
    using e(4,6) by (simp_all add: PCM_BUFFER_SIZE_def MP3_FRAME_SIZE_def)
  define k where "k = nat (encode_buffer_fill x)"
  have k: "encode_buffer_fill x = int k" "k < 1152"
    using f0 f1 by (simp_all add: k_def MP3_FRAME_SIZE_def)
  have PL: "pending_left x = take k bl" "pending_right x = take k br"
    by (simp_all add: pending_left_def pending_right_def pending_def e k_def)
  have lPL: "length (take k bl) = k" "length (take k br) = k"
    using k(2) lb by simp_all
  let ?G = "gain_scaled E (input_gain x)"
  show ?case
  proof (cases "sp = n")
    case True
    have run: "input_loop E ins (int n) (int sp) x = Some x"
      by (simp add: input_loop_exit True)
    have d: "drop sp (fst ins) = []" "drop sp (snd ins) = []"
      using True len by simp_all
    have short: "length (take k bl) < ?F" "length (take k br) < ?F"
      using lPL k(2) F by simp_all
    show ?thesis
      unfolding run PL d
      using ready g short
      by (simp add: gain_scaled_simps stereo_frames_short leftover_short encoder_feed_simps PL)
  next
    case False
    with sp have lt: "sp < n" by simp
    define c where "c = min (n - sp) (1152 - k)"
    have cpos: "0 < c" "sp + c \<le> n" "k + c \<le> 1152"
      using lt k(2) by (simp_all add: c_def)
    have cint: "int c = (if int n - int sp > MP3_FRAME_SIZE - encode_buffer_fill x
                         then MP3_FRAME_SIZE - encode_buffer_fill x else int n - int sp)"
      using lt k(2) unfolding c_def k(1) MP3_FRAME_SIZE_def min_def
      by (auto simp: of_nat_diff)
    let ?tl = "take c (drop sp (fst ins))" and ?tr = "take c (drop sp (snd ins))"
    let ?bl1 = "take k bl @ ?G ?tl @ drop (k + c) bl"
    let ?br1 = "take k br @ ?G ?tr @ drop (k + c) br"
    let ?x1 = "x\<lparr>encode_buffer_left := Some ?bl1, encode_buffer_right := Some ?br1\<rparr>"
    let ?x2 = "?x1\<lparr>encode_buffer_fill := int (k + c)\<rparr>"
    have copy: "for_loop 0 (int c) (copy_sample E ins (int sp)) x = Some ?x1"
      by (rule copy_loop [OF e(3) e(5) k(1)]) (use cpos lb len in simp_all)
    have ltc: "length ?tl = c" "length ?tr = c"
      using cpos(2) len by simp_all
    have len1: "length ?bl1 = 4608" "length ?br1 = 4608"
      using lb cpos(3) ltc lPL by (simp_all add: gain_scaled_simps)
    have tk: "take (k + c) ?bl1 = take k bl @ ?G ?tl" "take (k + c) ?br1 = take k br @ ?G ?tr"
      using lPL ltc by (simp_all add: gain_scaled_simps)
    have split: "?G (drop sp (fst ins)) = ?G ?tl @ ?G (drop (sp + c) (fst ins))"
      "?G (drop sp (snd ins)) = ?G ?tr @ ?G (drop (sp + c) (snd ins))"
    proof -
      have d: "drop c (drop sp zs) = drop (sp + c) zs" for zs :: "'d list"
        by (simp add: add.commute)
      have "drop sp (fst ins) = ?tl @ drop (sp + c) (fst ins)"
        "drop sp (snd ins) = ?tr @ drop (sp + c) (snd ins)"
        unfolding d [symmetric] by (simp_all only: append_take_drop_id)
      then show "?G (drop sp (fst ins)) = ?G ?tl @ ?G (drop (sp + c) (fst ins))"
        "?G (drop sp (snd ins)) = ?G ?tr @ ?G (drop (sp + c) (snd ins))"
        by (metis gain_scaled_append)+
    qed
    have step: "input_loop E ins (int n) (int sp) x =
         (if int (k + c) \<ge> MP3_FRAME_SIZE then
            (if initialized ?x2 = 0 \<or> gfp ?x2 = None \<or> hip ?x2 = None
             then Some (?x2\<lparr>encode_buffer_fill := 0\<rparr>)
             else Option.bind (encode_frame E ?x2) (input_loop E ins (int n) (int (sp + c))))
          else input_loop E ins (int n) (int (sp + c)) ?x2)"
    proof -
      have "int sp < int n" using lt by simp
      from input_loop_step [OF this cint, of E ins] show ?thesis
        unfolding copy by (simp add: k(1) Let_def)
    qed
    have dr2: "decoder_ready ?x2" using dr by (auto simp: decoder_ready_def)
    have fields2: "gfp ?x2 = Some g" "encode_buffer_left ?x2 = Some ?bl1"
      "encode_buffer_right ?x2 = Some ?br1" "initialized ?x2 = 1"
      "input_gain ?x2 = input_gain x" "bypass ?x2 = bypass x"
      "encode_buffer_fill ?x2 = int (k + c)"
      using g e(1) by simp_all
    have lenP: "int (length ?bl1) = PCM_BUFFER_SIZE" "int (length ?br1) = PCM_BUFFER_SIZE"
      using len1 by (simp_all add: PCM_BUFFER_SIZE_def MP3_FRAME_SIZE_def)
    show ?thesis
    proof (cases "k + c = 1152")
      case True
      from dr2 obtain h where h2: "hip ?x2 = Some h" by (rule decoder_readyE)
      have full: "take ?F ?bl1 = take k bl @ ?G ?tl" "take ?F ?br1 = take k br @ ?G ?tr"
        using tk True F by simp_all
      have lfull: "length (take k bl @ ?G ?tl) = ?F" "length (take k br @ ?G ?tr) = ?F"
        using lPL ltc True F by (simp_all add: gain_scaled_simps)
      from full_frame_step [OF ok fields2(1) fields2(2) lenP(1) fields2(3) lenP(2) fields2(4) dr2]
      obtain x3 where x3: "encode_frame E ?x2 = Some x3" "pipeline_ready x3"
        "encode_buffer_fill x3 = 0"
        "gfp x3 = Some (encoder_feed E g [(take ?F ?bl1, take ?F ?br1)])"
        "input_gain x3 = input_gain ?x2" "bypass x3 = bypass ?x2"
        by blast
      have P3: "pending_left x3 = []" "pending_right x3 = []"
        using x3(3) by (simp_all add: pending_left_def pending_right_def pending_def
            split: option.splits)
      have "n - (sp + c) < n - sp" using cpos lt by simp
      from less.hyps [OF this x3(2) x3(4) cpos(2)] obtain x' where x':
        "input_loop E ins (int n) (int (sp + c)) x3 = Some x'" "pipeline_ready x'"
        "input_gain x' = input_gain x3" "bypass x' = bypass x3"
        "gfp x' = Some (encoder_feed E (encoder_feed E g [(take ?F ?bl1, take ?F ?br1)])
              (stereo_frames (pending_left x3 @ gain_scaled E (input_gain x3) (drop (sp + c) (fst ins)))
                 (pending_right x3 @ gain_scaled E (input_gain x3) (drop (sp + c) (snd ins)))))"
        "pending_left x' = leftover ?F
                 (pending_left x3 @ gain_scaled E (input_gain x3) (drop (sp + c) (fst ins)))"
        "pending_right x' = leftover ?F
                 (pending_right x3 @ gain_scaled E (input_gain x3) (drop (sp + c) (snd ins)))"
        by blast
      have run: "input_loop E ins (int n) (int sp) x = Some x'"
        unfolding step using True h2 fields2 x3(1) x'(1)
        by (simp add: MP3_FRAME_SIZE_def)
      have gain3: "input_gain x3 = input_gain x" using x3(5) by simp
      let ?rl = "?G (drop (sp + c) (fst ins))" and ?rr = "?G (drop (sp + c) (snd ins))"
      have A: "pending_left x @ ?G (drop sp (fst ins)) = (take k bl @ ?G ?tl) @ ?rl"
        "pending_right x @ ?G (drop sp (snd ins)) = (take k br @ ?G ?tr) @ ?rr"
        unfolding PL split by simp_all
      have frames: "stereo_frames (pending_left x @ ?G (drop sp (fst ins)))
                      (pending_right x @ ?G (drop sp (snd ins)))
                    = (take k bl @ ?G ?tl, take k br @ ?G ?tr) # stereo_frames ?rl ?rr"
        unfolding A by (rule stereo_frames_full [OF lfull])
      have lo: "leftover ?F (pending_left x @ ?G (drop sp (fst ins))) = leftover ?F ?rl"
        "leftover ?F (pending_right x @ ?G (drop sp (snd ins))) = leftover ?F ?rr"
        unfolding A
        by (rule leftover_full [OF _ lfull(1)], simp add: F,
            rule leftover_full [OF _ lfull(2)], simp add: F)
      have g': "gfp x' = Some (encoder_feed E
                  (encoder_feed E g [(take k bl @ ?G ?tl, take k br @ ?G ?tr)])
                  (stereo_frames ?rl ?rr))"
        using x'(5) unfolding full P3 gain3 by simp
      have p': "pending_left x' = leftover ?F ?rl" "pending_right x' = leftover ?F ?rr"
        using x'(6,7) unfolding P3 gain3 by simp_all
      have keep: "input_gain x' = input_gain x" "bypass x' = bypass x"
        using x'(3,4) x3(5,6) by simp_all
      have feed: "encoder_feed E g ((take k bl @ ?G ?tl, take k br @ ?G ?tr) # stereo_frames ?rl ?rr)
                  = encoder_feed E (encoder_feed E g [(take k bl @ ?G ?tl, take k br @ ?G ?tr)])
                      (stereo_frames ?rl ?rr)"
        by (simp only: encoder_feed_simps)
      show ?thesis
        unfolding run frames lo feed
        using x'(2) g' p' keep by blast
    next
      case False
      with cpos(3) have short: "k + c < 1152" by simp
      then have cn: "c = n - sp" by (simp add: c_def min_def split: if_splits)
      then have spc: "sp + c = n" using lt by simp
      have run: "input_loop E ins (int n) (int sp) x = Some ?x2"
        unfolding step using short by (simp add: MP3_FRAME_SIZE_def spc input_loop_exit)
      have whole: "?tl = drop sp (fst ins)" "?tr = drop sp (snd ins)"
        using cn len by simp_all
      have P2: "pending_left ?x2 = take k bl @ ?G (drop sp (fst ins))"
        "pending_right ?x2 = take k br @ ?G (drop sp (snd ins))"
      proof -
        have "pending_left ?x2 = take (k + c) ?bl1" "pending_right ?x2 = take (k + c) ?br1"
          by (simp_all add: pending_left_def pending_right_def pending_def del: of_nat_add)
        then show "pending_left ?x2 = take k bl @ ?G (drop sp (fst ins))"
          "pending_right ?x2 = take k br @ ?G (drop sp (snd ins))"
          using tk by (simp_all only: whole)
      qed
      have lP2: "length (take k bl @ ?G (drop sp (fst ins))) < ?F"
        "length (take k br @ ?G (drop sp (snd ins))) < ?F"
        using lPL ltc short F whole by (simp_all add: gain_scaled_simps)
      have "encoder_ready ?x2"
        using g e(1) lenP by (simp add: encoder_ready_def allocated_def)
      then have r2: "pipeline_ready ?x2"
        using dr2 short by (simp add: pipeline_ready_def MP3_FRAME_SIZE_def)
      have fr: "stereo_frames (take k bl @ ?G (drop sp (fst ins)))
                  (take k br @ ?G (drop sp (snd ins))) = []"
        by (rule stereo_frames_short [OF lP2(1)])
      have lo: "leftover ?F (take k bl @ ?G (drop sp (fst ins))) = take k bl @ ?G (drop sp (fst ins))"
        "leftover ?F (take k br @ ?G (drop sp (snd ins))) = take k br @ ?G (drop sp (snd ins))"
        by (rule leftover_short [OF lP2(1)], rule leftover_short [OF lP2(2)])
      have feed0: "encoder_feed E g [] = g" by (simp add: encoder_feed_simps)
      show ?thesis
        unfolding run PL fr lo feed0
        using r2 fields2(1,5,6) P2 by blast
    qed
  qed
qed

lemma pipeline_ready_read_pos:
  assumes "pipeline_ready x" and "0 \<le> p" and "p < MP3_FRAME_SIZE * 4"
  shows "pipeline_ready (x\<lparr>ring_read_pos := p\<rparr>)"
  using assms by (auto simp: pipeline_ready_def encoder_ready_def decoder_ready_def)

lemma pending_lengths:
  assumes "pipeline_ready x"
  shows "length (pending_left x) = length (pending_right x)"
proof -
  from assms have er: "encoder_ready x" and f: "0 \<le> encode_buffer_fill x"
    "encode_buffer_fill x < MP3_FRAME_SIZE" by (simp_all add: pipeline_ready_def)
  from er obtain g bl br where
    "encode_buffer_left x = Some bl" "int (length bl) = PCM_BUFFER_SIZE"
    "encode_buffer_right x = Some br" "int (length br) = PCM_BUFFER_SIZE"
    by (rule encoder_readyE)
  then show ?thesis
    using f by (simp add: pending_left_def pending_right_def pending_def
        PCM_BUFFER_SIZE_def MP3_FRAME_SIZE_def)
qed

lemma stereo_frames_append:
  assumes "length l = length r"
  shows "stereo_frames (l @ l') (r @ r') =
           stereo_frames l r @
           stereo_frames (leftover (nat MP3_FRAME_SIZE) l @ l') (leftover (nat MP3_FRAME_SIZE) r @ r')"
proof -
  have F: "0 < nat MP3_FRAME_SIZE" by (simp add: MP3_FRAME_SIZE_def)
  have "length (chunks (nat MP3_FRAME_SIZE) l) = length (chunks (nat MP3_FRAME_SIZE) r)"
    using assms by (simp add: length_chunks [OF F])
  then show ?thesis
    unfolding stereo_frames_def
    by (simp add: chunks_append [OF F, of l l'] chunks_append [OF F, of r r'])
qed

lemma perform64_frames:
  fixes x :: "('d, 'f, 'e, 'h) mp3codec" and ins :: "'d list \<times> 'd list"
  assumes ok: "engine_ok E" and len: "length (fst ins) = n" "length (snd ins) = n"
    and ready: "pipeline_ready x" and g: "gfp x = Some g" and bp: "bypass x = 0"
    and lo: "n \<le> length (fst outs)" "n \<le> length (snd outs)"
  shows "\<exists>x' outs'. mp3codec_perform64 E x ins numins outs numouts (int n) = Some (x', outs') \<and>
      pipeline_ready x' \<and> input_gain x' = input_gain x \<and> bypass x' = 0 \<and>
      gfp x' = Some (encoder_feed E g (stereo_frames
                 (pending_left x @ gain_scaled E (input_gain x) (fst ins))
                 (pending_right x @ gain_scaled E (input_gain x) (snd ins)))) \<and>
      pending_left x' = leftover (nat MP3_FRAME_SIZE)
                 (pending_left x @ gain_scaled E (input_gain x) (fst ins)) \<and>
      pending_right x' = leftover (nat MP3_FRAME_SIZE)
                 (pending_right x @ gain_scaled E (input_gain x) (snd ins))"
proof -
  from input_loop_frames [OF ok len ready g, of 0] obtain x1 where x1:
    "input_loop E ins (int n) 0 x = Some x1" "pipeline_ready x1"
    "input_gain x1 = input_gain x" "bypass x1 = bypass x"
    "gfp x1 = Some (encoder_feed E g (stereo_frames
                 (pending_left x @ gain_scaled E (input_gain x) (fst ins))
                 (pending_right x @ gain_scaled E (input_gain x) (snd ins))))"
    "pending_left x1 = leftover (nat MP3_FRAME_SIZE)
                 (pending_left x @ gain_scaled E (input_gain x) (fst ins))"
    "pending_right x1 = leftover (nat MP3_FRAME_SIZE)
                 (pending_right x @ gain_scaled E (input_gain x) (snd ins))"
    by auto
  from ready have er: "encoder_ready x" by (simp add: pipeline_ready_def)
  from er obtain g0 bl br where e:
    "initialized x = 1" "encode_buffer_left x = Some bl" "encode_buffer_right x = Some br"
    by (rule encoder_readyE)
  from ready have "decoder_ready x" by (simp add: pipeline_ready_def)
  then obtain rl0 rr0 where r0: "output_ring_left x = Some rl0" "output_ring_right x = Some rr0"
    by (rule decoder_readyE)
  from x1(2) have "decoder_ready x1" by (simp add: pipeline_ready_def)
  then obtain rl rr where r:
    "ring_size x1 = MP3_FRAME_SIZE * 4"
    "output_ring_left x1 = Some rl" "int (length rl) = MP3_FRAME_SIZE * 4"
    "output_ring_right x1 = Some rr" "int (length rr) = MP3_FRAME_SIZE * 4"
    "0 \<le> ring_read_pos x1" "ring_read_pos x1 < MP3_FRAME_SIZE * 4"
    by (rule decoder_readyE)
  define sz where "sz = nat (MP3_FRAME_SIZE * 4)"
  define rp where "rp = nat (ring_read_pos x1)"
  have isz: "int sz = MP3_FRAME_SIZE * 4" by (simp add: sz_def MP3_FRAME_SIZE_def)
  have s: "ring_size x1 = int sz" "length rl = sz" "length rr = sz"
    "ring_read_pos x1 = int rp" "rp < sz"
    using r by (simp_all add: sz_def rp_def)
  from ring_read_total [OF r(2) r(4) s(1,2,3,4,5) lo, of E] obtain p a b where
    rd: "for_loop 0 (int n) (ring_read_sample E) (x1, fst outs, snd outs) =
             Some (x1\<lparr>ring_read_pos := int p\<rparr>, a, b)"
    and p: "p < sz" by blast
  have run: "mp3codec_perform64 E x ins numins outs numouts (int n) =
               Some (x1\<lparr>ring_read_pos := int p\<rparr>, a, b)"
    unfolding mp3codec_perform64_def using e bp r0 x1(1) rd by simp
  have "int p < MP3_FRAME_SIZE * 4" using p unfolding isz [symmetric] by (simp only: of_nat_less_iff)
  then have ready': "pipeline_ready (x1\<lparr>ring_read_pos := int p\<rparr>)"
    by (intro pipeline_ready_read_pos x1(2)) simp_all
  have pend: "pending_left (x1\<lparr>ring_read_pos := int p\<rparr>) = pending_left x1"
    "pending_right (x1\<lparr>ring_read_pos := int p\<rparr>) = pending_right x1"
    by (simp_all add: pending_left_def pending_right_def)
  show ?thesis
    unfolding run using ready' x1(3-7) bp pend by simp
qed

lemma host_run_frames:
  fixes x :: "('d, 'f, 'e, 'h) mp3codec" and blocks :: "('d list \<times> 'd list) list"
  assumes ok: "engine_ok E"
  shows "pipeline_ready x \<Longrightarrow> gfp x = Some g \<Longrightarrow> bypass x = 0 \<Longrightarrow>
     (\<forall>b\<in>set blocks. length (fst b) = length (snd b)) \<Longrightarrow>
     \<exists>x' outs. host_run E x blocks = Some (x', outs) \<and>
      pipeline_ready x' \<and> input_gain x' = input_gain x \<and> bypass x' = 0 \<and>
      gfp x' = Some (encoder_feed E g (stereo_frames
                 (pending_left x @ gain_scaled E (input_gain x) (concat (map fst blocks)))
                 (pending_right x @ gain_scaled E (input_gain x) (concat (map snd blocks))))) \<and>
      pending_left x' = leftover (nat MP3_FRAME_SIZE)
                 (pending_left x @ gain_scaled E (input_gain x) (concat (map fst blocks))) \<and>
      pending_right x' = leftover (nat MP3_FRAME_SIZE)
                 (pending_right x @ gain_scaled E (input_gain x) (concat (map snd blocks)))"
proof (induction blocks arbitrary: x g)
  case Nil
  have F: "nat MP3_FRAME_SIZE = 1152" by (simp add: MP3_FRAME_SIZE_def)
  from Nil.prems(1) have f: "0 \<le> encode_buffer_fill x" "encode_buffer_fill x < MP3_FRAME_SIZE"
    by (simp_all add: pipeline_ready_def)
  have short: "length (pending_left x) < nat MP3_FRAME_SIZE"
    "length (pending_right x) < nat MP3_FRAME_SIZE"
    using f by (auto simp: pending_left_def pending_right_def pending_def MP3_FRAME_SIZE_def
        min_def split: option.splits)
  show ?case
    using Nil.prems short
    by (simp add: gain_scaled_simps stereo_frames_short leftover_short encoder_feed_simps)
next
  case (Cons b bs)
  let ?G = "gain_scaled E (input_gain x)"
  let ?F = "nat MP3_FRAME_SIZE"
  have lb: "length (fst b) = length (fst b)" "length (snd b) = length (fst b)"
    using Cons.prems(4) by simp_all
  let ?outs = "(replicate (length (fst b)) (d_zero E), replicate (length (fst b)) (d_zero E))"
  have lo: "length (fst b) \<le> length (fst ?outs)" "length (fst b) \<le> length (snd ?outs)"
    by simp_all
  from perform64_frames [OF ok lb Cons.prems(1,2,3) lo, of 2 2] obtain x1 outs1 where x1:
    "mp3codec_perform64 E x b 2 ?outs 2 (int (length (fst b))) = Some (x1, outs1)"
    "pipeline_ready x1" "input_gain x1 = input_gain x" "bypass x1 = 0"
    "gfp x1 = Some (encoder_feed E g (stereo_frames
                 (pending_left x @ ?G (fst b)) (pending_right x @ ?G (snd b))))"
    "pending_left x1 = leftover ?F (pending_left x @ ?G (fst b))"
    "pending_right x1 = leftover ?F (pending_right x @ ?G (snd b))"
    by blast
  have rest: "\<forall>b\<in>set bs. length (fst b) = length (snd b)" using Cons.prems(4) by simp
  from Cons.IH [OF x1(2) x1(5) x1(4) rest] obtain x' outs where x':
    "host_run E x1 bs = Some (x', outs)"
    "pipeline_ready x'" "input_gain x' = input_gain x1" "bypass x' = 0"
    "gfp x' = Some (encoder_feed E (encoder_feed E g (stereo_frames
                 (pending_left x @ ?G (fst b)) (pending_right x @ ?G (snd b))))
              (stereo_frames
                 (pending_left x1 @ gain_scaled E (input_gain x1) (concat (map fst bs)))
                 (pending_right x1 @ gain_scaled E (input_gain x1) (concat (map snd bs)))))"
    "pending_left x' = leftover ?F
                 (pending_left x1 @ gain_scaled E (input_gain x1) (concat (map fst bs)))"
    "pending_right x' = leftover ?F
                 (pending_right x1 @ gain_scaled E (input_gain x1) (concat (map snd bs)))"
    by blast
  have run: "host_run E x (b # bs) = Some (x', outs1 # outs)"
    using x1(1) x'(1) by simp
  have eq: "length (pending_left x @ ?G (fst b)) = length (pending_right x @ ?G (snd b))"
    using pending_lengths [OF Cons.prems(1)] lb by (simp add: gain_scaled_simps)
  have F: "0 < ?F" by (simp add: MP3_FRAME_SIZE_def)
  let ?cl = "?G (concat (map fst bs))" and ?cr = "?G (concat (map snd bs))"
  have L: "pending_left x @ ?G (concat (map fst (b # bs))) = (pending_left x @ ?G (fst b)) @ ?cl"
    and R: "pending_right x @ ?G (concat (map snd (b # bs))) = (pending_right x @ ?G (snd b)) @ ?cr"
    by (simp_all add: gain_scaled_append)
  have frames: "stereo_frames (pending_left x @ ?G (concat (map fst (b # bs))))
                  (pending_right x @ ?G (concat (map snd (b # bs))))
                = stereo_frames (pending_left x @ ?G (fst b)) (pending_right x @ ?G (snd b)) @
                  stereo_frames (pending_left x1 @ ?cl) (pending_right x1 @ ?cr)"
    unfolding L R x1(6,7) by (rule stereo_frames_append [OF eq])
  have left: "leftover ?F (pending_left x @ ?G (concat (map fst (b # bs))))
                = leftover ?F (pending_left x1 @ ?cl)"
    "leftover ?F (pending_right x @ ?G (concat (map snd (b # bs))))
                = leftover ?F (pending_right x1 @ ?cr)"
    unfolding L R x1(6,7) by (rule leftover_append [OF F])+
  have g': "gfp x' = Some (encoder_feed E g
              (stereo_frames (pending_left x @ ?G (fst b)) (pending_right x @ ?G (snd b)) @
               stereo_frames (pending_left x1 @ ?cl) (pending_right x1 @ ?cr)))"
    using x'(5) unfolding x1(3) by (simp only: encoder_feed_simps)
  have p': "pending_left x' = leftover ?F (pending_left x1 @ ?cl)"
    "pending_right x' = leftover ?F (pending_right x1 @ ?cr)"
    using x'(6,7) unfolding x1(3) by blast+
  have keep: "input_gain x' = input_gain x" using x'(3) x1(3) by simp
  show ?case
    unfolding run frames left
    using x'(2,4) keep g' p' by blast
qed

lemma concat_lengths:
  "(\<forall>b\<in>set bs. length (fst b) = length (snd b)) \<Longrightarrow>
     length (concat (map fst bs)) = length (concat (map snd bs))"
  by (induction bs) simp_all

lemma chunks_exact: "0 < n \<Longrightarrow> length xs = n \<Longrightarrow> chunks n xs = [xs]"
  using chunks_full [of n xs "[]"] by (simp add: chunks_short)

section \<open>The frame accumulator\<close>

text \<open>
  Claim C1. The pipeline is ready with an empty frame under construction, bypass is off and
  the engine stays inside its buffers. For every sequence of host blocks whose lengths sum
  to \<open>k * 1152\<close>, the run returns, and the encoder ends in the state that \<open>k\<close> calls of
  \<^verbatim>\<open>lame_encode_buffer\<close> produce, one for each frame of the stream in order: the frames
  are the consecutive runs of 1152 samples of the gain-scaled input of each channel
  (converted to \<^verbatim>\<open>short\<close> for the call), so each holds 1152 samples and together they
  are the whole input in its order. No sample is left in the accumulator at the end.
\<close>

theorem frame_accumulator_emits_complete_frames:
  fixes x :: "('d, 'f, 'e, 'h) mp3codec" and blocks :: "('d list \<times> 'd list) list"
  assumes "engine_ok E" and "pipeline_ready x" and "encode_buffer_fill x = 0"
    and "bypass x = 0" and "gfp x = Some g"
    and "\<forall>b\<in>set blocks. length (fst b) = length (snd b)"
    and "length (concat (map fst blocks)) = k * 1152"
  shows "let L = gain_scaled E (input_gain x) (concat (map fst blocks));
             R = gain_scaled E (input_gain x) (concat (map snd blocks))
         in \<exists>x' outs. host_run E x blocks = Some (x', outs) \<and>
              gfp x' = Some (encoder_feed E g (stereo_frames L R)) \<and>
              length (stereo_frames L R) = k \<and>
              (\<forall>fr\<in>set (stereo_frames L R). length (fst fr) = 1152 \<and> length (snd fr) = 1152) \<and>
              concat (map fst (stereo_frames L R)) = L \<and>
              concat (map snd (stereo_frames L R)) = R \<and>
              encode_buffer_fill x' = 0 \<and> pipeline_ready x'"
proof -
  define L where "L = gain_scaled E (input_gain x) (concat (map fst blocks))"
  define R where "R = gain_scaled E (input_gain x) (concat (map snd blocks))"
  let ?F = "nat MP3_FRAME_SIZE"
  have F: "?F = 1152" "0 < ?F" by (simp_all add: MP3_FRAME_SIZE_def)
  have P: "pending_left x = []" "pending_right x = []"
    using assms(3) by (simp_all add: pending_left_def pending_right_def pending_def
        split: option.splits)
  from host_run_frames [OF assms(1,2,5,4,6)] obtain x' outs where run:
    "host_run E x blocks = Some (x', outs)" "pipeline_ready x'"
    "gfp x' = Some (encoder_feed E g (stereo_frames L R))"
    "pending_left x' = leftover ?F L"
    unfolding P L_def R_def by auto
  have lenL: "length L = k * 1152" and lenR: "length R = k * 1152"
    using assms(7) concat_lengths [OF assms(6)] by (simp_all add: L_def R_def gain_scaled_simps)
  have lo: "leftover ?F L = []" "leftover ?F R = []"
    using length_leftover [OF F(2), of L] length_leftover [OF F(2), of R] lenL lenR F(1)
    by simp_all
  have cl: "length (chunks ?F L) = k" "length (chunks ?F R) = k"
    using length_chunks [OF F(2), of L] length_chunks [OF F(2), of R] lenL lenR F(1)
    by simp_all
  have count: "length (stereo_frames L R) = k"
    using cl by (simp add: stereo_frames_def)
  have sizes: "\<forall>fr\<in>set (stereo_frames L R). length (fst fr) = 1152 \<and> length (snd fr) = 1152"
  proof
    fix fr assume "fr \<in> set (stereo_frames L R)"
    then have "fst fr \<in> set (chunks ?F L)" "snd fr \<in> set (chunks ?F R)"
      unfolding stereo_frames_def
      by (metis prod.collapse set_zip_leftD, metis prod.collapse set_zip_rightD)
    then show "length (fst fr) = 1152 \<and> length (snd fr) = 1152"
      using chunks_lengths [OF F(2)] F(1) by metis
  qed
  have whole: "concat (map fst (stereo_frames L R)) = L" "concat (map snd (stereo_frames L R)) = R"
    using concat_chunks [OF F(2), of L] concat_chunks [OF F(2), of R] lo cl
    by (simp_all add: stereo_frames_def)
  have fill: "encode_buffer_fill x' = 0"
  proof -
    from run(2) have er: "encoder_ready x'" and f: "0 \<le> encode_buffer_fill x'"
      "encode_buffer_fill x' < MP3_FRAME_SIZE" by (simp_all add: pipeline_ready_def)
    from er obtain g' bl br where
      b: "encode_buffer_left x' = Some bl" "int (length bl) = PCM_BUFFER_SIZE"
      by (rule encoder_readyE)
    have "take (nat (encode_buffer_fill x')) bl = []"
      using run(4) lo(1) b(1) by (simp add: pending_left_def pending_def)
    moreover have "bl \<noteq> []" using b(2) by (auto simp: PCM_BUFFER_SIZE_def MP3_FRAME_SIZE_def)
    ultimately have "nat (encode_buffer_fill x') = 0" by simp
    with f show ?thesis by simp
  qed
  show ?thesis
    unfolding Let_def L_def [symmetric] R_def [symmetric]
    using run(1,2,3) count sizes whole fill by blast
qed

theorem frame_accumulator_emits_complete_frames_witness:
  "engine_ok accepting_env \<and> pipeline_ready ready_object \<and>
   encode_buffer_fill ready_object = 0 \<and> bypass ready_object = 0 \<and>
   (\<exists>x' outs.
      host_run accepting_env ready_object
        [(replicate 500 1, replicate 500 2), (replicate 652 3, replicate 652 4)] = Some (x', outs) \<and>
      gfp x' = Some (stub_settings,
                     [(replicate 500 1 @ replicate 652 3, replicate 500 2 @ replicate 652 4)]) \<and>
      encode_buffer_fill x' = 0)"
proof -
  let ?blocks = "[(replicate 500 (1::int), replicate 500 (2::int)),
                  (replicate 652 3, replicate 652 4)]"
  have ok: "engine_ok accepting_env" by (simp add: accepting_env_def engine_ok_stub)
  have ready: "pipeline_ready ready_object"
    by (simp add: pipeline_ready_def encoder_ready_def decoder_ready_def allocated_def
        ready_object_def stub_object_def DECODE_BUFFER_SIZE_def PCM_BUFFER_SIZE_def
        MP3_FRAME_SIZE_def)
  have f: "encode_buffer_fill ready_object = 0" and b: "bypass ready_object = 0"
    and g: "gfp ready_object = Some (stub_settings, [])"
    by (simp_all add: ready_object_def stub_object_def)
  have eq: "\<forall>b\<in>set ?blocks. length (fst b) = length (snd b)" by simp
  have len: "length (concat (map fst ?blocks)) = 1 * 1152" by simp
  have L: "gain_scaled accepting_env (input_gain ready_object) (concat (map fst ?blocks))
             = replicate 500 1 @ replicate 652 3"
    and R: "gain_scaled accepting_env (input_gain ready_object) (concat (map snd ?blocks))
             = replicate 500 2 @ replicate 652 4"
    by (simp_all add: gain_scaled_def accepting_env_def stub_env_def ready_object_def
        stub_object_def)
  have fr: "stereo_frames (replicate 500 (1::int) @ replicate 652 3)
              (replicate 500 (2::int) @ replicate 652 4)
            = [(replicate 500 1 @ replicate 652 3, replicate 500 2 @ replicate 652 4)]"
    by (simp add: stereo_frames_def chunks_exact MP3_FRAME_SIZE_def)
  have feed: "encoder_feed accepting_env (stub_settings, [])
               [(replicate 500 1 @ replicate 652 3, replicate 500 2 @ replicate 652 4)]
             = (stub_settings,
                [(replicate 500 1 @ replicate 652 3, replicate 500 2 @ replicate 652 4)])"
    by (simp add: encoder_feed_simps float_to_short_def accepting_env_def stub_env_def)
  from frame_accumulator_emits_complete_frames [OF ok ready f b g eq len]
  show ?thesis
    unfolding Let_def L R fr feed using ok ready f b by blast
qed

section \<open>Silence while the pipeline is not initialized\<close>

text \<open>
  Claim C5. A call of the perform routine that finds \<open>initialized = 0\<close> writes zero to
  every sample of both output arrays, for the whole block, and returns the object as it
  was: the result is this for every input, every buffer content and every handle, so none
  of them is read, and none is written.
\<close>

theorem perform64_uninitialized_silence:
  assumes "initialized x = 0"
    and "length (fst outs) = nat sampleframes" and "length (snd outs) = nat sampleframes"
  shows "mp3codec_perform64 E x ins numins outs numouts sampleframes =
           Some (x, replicate (nat sampleframes) (d_zero E), replicate (nat sampleframes) (d_zero E))"
  using assms by (rule perform64_not_initialized)

theorem perform64_uninitialized_silence_witness:
  "initialized stub_object = 0 \<and>
   mp3codec_perform64 accepting_env stub_object ([1, 2, 3], [4, 5, 6]) 2
      ([9, 9, 9], [8, 8, 8]) 2 3 = Some (stub_object, [0, 0, 0], [0, 0, 0])"
proof -
  have i: "initialized stub_object = 0" by (simp add: stub_object_def)
  have z: "d_zero accepting_env = 0" by (simp add: accepting_env_def stub_env_def)
  show ?thesis
    using i perform64_uninitialized_silence [OF i, of "([9, 9, 9], [8, 8, 8])" 3
        accepting_env "([1, 2, 3], [4, 5, 6])" 2 2]
    by (simp add: z numeral_3_eq_3)
qed

section \<open>An unchanged quality\<close>

text \<open>
  Claim C9. A quality message whose clamped value is the current quality rebuilds nothing:
  the handler returns the object with \<open>initialized = 1\<close> and every other field (handles,
  buffer pointers and contents, fill levels, cursors) as it was.
\<close>

theorem quality_unchanged_no_rebuild:
  assumes "CLAMP n 0 9 = quality x"
  shows "mp3codec_quality E x n = Some (x\<lparr>initialized := 1\<rparr>)"
  using assms by (simp add: mp3codec_quality_def Let_def)

theorem quality_unchanged_no_rebuild_witness:
  "CLAMP 5 0 9 = quality ready_object \<and>
   mp3codec_quality rejecting_env ready_object 5 = Some (ready_object\<lparr>initialized := 1\<rparr>)"
proof -
  have h: "CLAMP 5 0 9 = quality ready_object"
    by (simp add: CLAMP_def ready_object_def stub_object_def)
  from quality_unchanged_no_rebuild [OF h] h show ?thesis by simp
qed

section \<open>The latency figures\<close>

text \<open>
  Claim C2. After a successful initialization the stored total latency is the frame size
  (1152) plus the encoder delay the engine reports plus the decoder delay 528, and a
  latency query sends one list of four atoms to the analysis outlet (which the object has):
  the total in milliseconds, the total in samples, the encoder delay and the decoder delay.
\<close>

theorem init_success_latency:
  assumes "mp3codec_init_processor E x = Some (r, x')" and "0 \<le> r"
    and "analysis_outlet x"
  shows "\<exists>g. gfp x' = Some g \<and>
           total_latency_samples x' = 1152 + lame_get_encoder_delay E g + 528 \<and>
           mp3codec_latency x' =
             [[A_FLOAT (ms_of_samples E (1152 + lame_get_encoder_delay E g + 528) (sample_rate x)),
               A_LONG (1152 + lame_get_encoder_delay E g + 528),
               A_LONG (lame_get_encoder_delay E g),
               A_LONG 528]]"
proof -
  from init_success [OF assms(1,2)] obtain g where
    g: "gfp x' = Some g" "lame_encoder_delay x' = lame_get_encoder_delay E g"
       "total_latency_samples x' = lame_get_encoder_delay E g + 528 + MP3_FRAME_SIZE"
    and rest: "initialized x' = 1" "lame_decoder_delay x' = 528"
       "total_latency_ms x' = ms_of_samples E (total_latency_samples x') (sample_rate x)"
       "analysis_outlet x' = analysis_outlet x"
    by blast
  have t: "total_latency_samples x' = 1152 + lame_get_encoder_delay E g + 528"
    using g(3) by (simp add: MP3_FRAME_SIZE_def)
  show ?thesis
    using g(1,2) t rest assms(3) by (simp add: mp3codec_latency_def)
qed

theorem init_success_latency_witness:
  "mp3codec_init_processor accepting_env stub_object = Some (0, ready_object) \<and>
   analysis_outlet stub_object \<and>
   total_latency_samples ready_object = 2256 \<and>
   mp3codec_latency ready_object = [[A_FLOAT 51, A_LONG 2256, A_LONG 576, A_LONG 528]]"
proof -
  have o: "analysis_outlet stub_object" by (simp add: stub_object_def)
  have d: "lame_get_encoder_delay accepting_env g = 576" for g
    by (simp add: accepting_env_def stub_env_def)
  have m: "ms_of_samples accepting_env 2256 (sample_rate stub_object) = 51"
    by (simp add: accepting_env_def stub_env_def stub_object_def)
  from init_success_latency [OF init_stub _ o] show ?thesis
    using init_stub o by (simp add: d m)
qed

section \<open>A rejected configuration\<close>

text \<open>
  Claim C6, as the code has it. The retry with 32 kbps is guarded by a table bitrate of at
  most 16 kbps, and no entry of the table is that low. So for every quality ordinal 0 to 9,
  when \<^verbatim>\<open>lame_init_params\<close> rejects the configuration the initializer fails at once: it
  returns \<open>-1\<close> and leaves the object torn down (\<open>initialized = 0\<close>, every pointer NULL)
  with the error line of the rejected bitrate, whatever a second attempt would have given.
\<close>

theorem init_rejected_no_retry:
  assumes "0 \<le> quality x" and "quality x \<le> 9"
    and "lame_init E = Some g0"
    and "fst (lame_init_params E (lame_configure E x (QUALITY_BITRATES ! nat (quality x)) g0)) < 0"
  shows "mp3codec_init_processor E x =
           Some (- 1, log_error (Err_set_params (QUALITY_BITRATES ! nat (quality x)))
                        (mp3codec_cleanup_processor x))
         \<and> torn_down (log_error (Err_set_params (QUALITY_BITRATES ! nat (quality x)))
                        (mp3codec_cleanup_processor x))"
proof -
  have "mp3codec_init_processor E x =
           Some (- 1, log_error (Err_set_params (QUALITY_BITRATES ! nat (quality x)))
                        (mp3codec_cleanup_processor x))"
    using QUALITY_BITRATES_floor [OF assms(1,2)] assms(3,4)
    by (auto simp: mp3codec_init_processor_def Let_def cleanup_fields lame_configure_cleanup
        cleanup_gfp split: prod.splits)
  then show ?thesis using torn_down_log' [OF torn_down_cleanup] by simp
qed

theorem init_rejected_no_retry_witness:
  "0 \<le> quality stub_object \<and> quality stub_object \<le> 9 \<and>
   lame_init rejecting_env = Some ([], []) \<and>
   fst (lame_init_params rejecting_env
         (lame_configure rejecting_env stub_object 112 ([], []))) < 0 \<and>
   mp3codec_init_processor rejecting_env stub_object =
     Some (- 1, log_error (Err_set_params 112) stub_object)"
proof -
  have q: "0 \<le> quality stub_object" "quality stub_object \<le> 9"
    by (simp_all add: stub_object_def)
  have i: "lame_init rejecting_env = Some ([], [])"
    by (simp add: rejecting_env_def stub_env_def)
  have b: "QUALITY_BITRATES ! nat (quality stub_object) = 112"
    by (simp add: stub_object_def QUALITY_BITRATES_def)
  have r: "fst (lame_init_params rejecting_env g) < 0" for g
    by (simp add: rejecting_env_def stub_env_def)
  have c: "mp3codec_cleanup_processor stub_object = stub_object"
    by (simp add: mp3codec_cleanup_processor_def stub_object_def)
  from init_rejected_no_retry [OF q i r] show ?thesis
    using q i r by (simp add: b c)
qed

text \<open>
  The claim itself fails: here the engine rejects the configuration of quality 9 and would
  accept the fallback (32 kbps, low-pass at 6000 Hz), and the initializer still fails
  without trying it.
\<close>

theorem init_retry_counterexample:
  "fst (lame_init_params fallback_only_env
         (lame_configure fallback_only_env quality9_object 32 ([], []))) < 0 \<and>
   fst (lame_init_params fallback_only_env
         (lame_set fallback_only_env (Lowpassfreq 6000)
           (lame_set fallback_only_env (Brate 32)
             (snd (lame_init_params fallback_only_env
                    (lame_configure fallback_only_env quality9_object 32 ([], []))))))) = 0 \<and>
   mp3codec_init_processor fallback_only_env quality9_object =
     Some (- 1, log_error (Err_set_params 32) quality9_object)"
  by (simp add: mp3codec_init_processor_def fallback_only_env_def stub_env_def stub_object_def
      quality9_object_def mp3codec_cleanup_processor_def array_read_def QUALITY_BITRATES_def
      lame_configure_def Let_def log_error_def)

section \<open>A failed rebuild\<close>




text \<open>
  The silence after two failed rebuilds need not last until a rebuild succeeds. Here the
  object has bypass on and the engine rejects every configuration. The message
  \<^verbatim>\<open>quality 9\<close> fails twice and leaves \<open>initialized = 0\<close>; the message \<^verbatim>\<open>quality 5\<close>, the
  value the object has, then sets \<open>initialized\<close> to 1 without a rebuild, and the next
  call of the perform routine takes the bypass branch and copies the input to the output.
\<close>

theorem failed_retry_then_bypass:
  "mp3codec_quality rejecting_env bypassed_ready_object 9
     = Some ((mp3codec_cleanup_processor bypassed_ready_object)
               \<lparr>max_console := [Err_set_params 32, Err_change_quality 9,
                                Err_set_params 112, Err_restore_quality]\<rparr>) \<and>
   mp3codec_quality rejecting_env
       ((mp3codec_cleanup_processor bypassed_ready_object)
          \<lparr>max_console := [Err_set_params 32, Err_change_quality 9,
                           Err_set_params 112, Err_restore_quality]\<rparr>) 5
     = Some ((mp3codec_cleanup_processor bypassed_ready_object)
               \<lparr>max_console := [Err_set_params 32, Err_change_quality 9,
                                Err_set_params 112, Err_restore_quality],
                initialized := 1\<rparr>) \<and>
   mp3codec_perform64 rejecting_env
       ((mp3codec_cleanup_processor bypassed_ready_object)
          \<lparr>max_console := [Err_set_params 32, Err_change_quality 9,
                           Err_set_params 112, Err_restore_quality],
           initialized := 1\<rparr>)
       ([7, 7], [8, 8]) 2 ([0, 0], [0, 0]) 2 2
     = Some ((mp3codec_cleanup_processor bypassed_ready_object)
               \<lparr>max_console := [Err_set_params 32, Err_change_quality 9,
                                Err_set_params 112, Err_restore_quality],
                initialized := 1\<rparr>,
             [7, 7], [8, 8])"
  by (simp add: init_eval rejecting_env_def bypassed_ready_object_def ready_object_def
      stub_object_def mp3codec_quality_def CLAMP_def mp3codec_perform64_def for_loop.simps
      bypass_sample_def array_write_def)

section \<open>Initialized without buffers\<close>

text \<open>
  Claim C10, as the code has it. After a failed initialization every handle and buffer
  pointer is NULL. A quality message with the current value then sets \<open>initialized\<close> to 1
  and changes nothing else. In that state a call of the perform routine with bypass off
  finds the NULL buffer pointers, writes zero to both output arrays for the whole block
  and returns the object as it was.
\<close>

theorem requality_after_failed_init:
  assumes "mp3codec_init_processor E x = Some (r, x1)" and "r < 0"
    and "CLAMP n 0 9 = quality x1" and "bypass x1 = 0"
    and "length (fst outs) = nat sampleframes" and "length (snd outs) = nat sampleframes"
  shows "torn_down x1 \<and>
         mp3codec_quality E x1 n = Some (x1\<lparr>initialized := 1\<rparr>) \<and>
         mp3codec_perform64 E (x1\<lparr>initialized := 1\<rparr>) ins numins outs numouts sampleframes =
           Some (x1\<lparr>initialized := 1\<rparr>,
                 replicate (nat sampleframes) (d_zero E), replicate (nat sampleframes) (d_zero E))"
proof -
  from init_failure [OF assms(1,2)] have td: "torn_down x1" by simp
  have q: "mp3codec_quality E x1 n = Some (x1\<lparr>initialized := 1\<rparr>)"
    using assms(3) by (simp add: mp3codec_quality_def Let_def)
  have "mp3codec_perform64 E (x1\<lparr>initialized := 1\<rparr>) ins numins outs numouts sampleframes =
           Some (x1\<lparr>initialized := 1\<rparr>,
                 replicate (nat sampleframes) (d_zero E), replicate (nat sampleframes) (d_zero E))"
    using td assms(4)
    by (intro perform64_null_buffers assms(5,6)) (simp_all add: torn_down_def)
  with td q show ?thesis by simp
qed

theorem requality_after_failed_init_witness:
  "mp3codec_init_processor rejecting_env stub_object
     = Some (- 1, log_error (Err_set_params 112) stub_object) \<and>
   CLAMP 5 0 9 = quality (log_error (Err_set_params 112) stub_object) \<and>
   bypass (log_error (Err_set_params 112) stub_object) = 0 \<and>
   mp3codec_quality rejecting_env (log_error (Err_set_params 112) stub_object) 5
     = Some ((log_error (Err_set_params 112) stub_object)\<lparr>initialized := 1\<rparr>) \<and>
   mp3codec_perform64 rejecting_env ((log_error (Err_set_params 112) stub_object)\<lparr>initialized := 1\<rparr>)
       ([7, 7], [8, 8]) 2 ([9, 9], [9, 9]) 2 2
     = Some ((log_error (Err_set_params 112) stub_object)\<lparr>initialized := 1\<rparr>, [0, 0], [0, 0])"
proof -
  have i: "mp3codec_init_processor rejecting_env stub_object
     = Some (- 1, log_error (Err_set_params 112) stub_object)"
    by (simp add: init_eval rejecting_env_def stub_object_def)
  have c: "CLAMP 5 0 9 = quality (log_error (Err_set_params 112) stub_object)"
    by (simp add: CLAMP_def log_error_def stub_object_def)
  have b: "bypass (log_error (Err_set_params 112) stub_object) = 0"
    by (simp add: log_error_def stub_object_def)
  from requality_after_failed_init [OF i _ c b, of "([9, 9], [9, 9])" 2 "([7, 7], [8, 8])" 2 2]
  show ?thesis
    using i c b by (simp add: rejecting_env_def stub_eval numeral_2_eq_2)
qed

text \<open>
  The claim itself fails when bypass is on: the bypass branch comes before the check of
  the buffer pointers, so the block is the input scaled by the two gains, not silence.
\<close>

theorem requality_bypass_counterexample:
  "mp3codec_init_processor rejecting_env bypassed_object
     = Some (- 1, log_error (Err_set_params 112) bypassed_object) \<and>
   mp3codec_quality rejecting_env (log_error (Err_set_params 112) bypassed_object) 5
     = Some ((log_error (Err_set_params 112) bypassed_object)\<lparr>initialized := 1\<rparr>) \<and>
   mp3codec_perform64 rejecting_env
       ((log_error (Err_set_params 112) bypassed_object)\<lparr>initialized := 1\<rparr>)
       ([7], [8]) 2 ([0], [0]) 2 1
     = Some ((log_error (Err_set_params 112) bypassed_object)\<lparr>initialized := 1\<rparr>, [7], [8])"
  by (simp add: init_eval rejecting_env_def bypassed_object_def stub_object_def
      mp3codec_quality_def CLAMP_def mp3codec_perform64_def for_loop.simps bypass_sample_def
      array_write_def)

section \<open>The decode result\<close>

text \<open>
  Claim C3. The decode attempt after an encode that produced bytes always returns to the
  frame loop with the decoder side intact. On a positive result the accumulator fill is
  zero afterwards; on zero the accumulator and its fill are as before, so that the next
  chunk that fits is stored right after the bytes already there; on a negative result the
  fill is zero afterwards.
\<close>

theorem decode_result_handling:
  fixes x :: "('d, 'f, 'e, 'h) mp3codec"
  assumes "decoder_ready x" and "engine_ok E"
    and "hip x = Some h" and "mp3_accumulator x = Some acc"
    and "hip_decode E h (take (nat (mp3_accumulator_fill x)) acc) = (n, pl, pr, h')"
  shows "\<exists>x'. decode_accumulated E x = Some x' \<and> decoder_ready x' \<and>
           (if n > 0 then mp3_accumulator_fill x' = 0
            else if n = 0 then
              mp3_accumulator x' = Some acc \<and>
              mp3_accumulator_fill x' = mp3_accumulator_fill x \<and>
              (\<forall>buf m. m \<le> length buf \<and>
                       mp3_accumulator_fill x + int m < DECODE_BUFFER_SIZE \<longrightarrow>
                 accumulate_chunk x' buf (int m) =
                   Some (x'\<lparr>mp3_accumulator :=
                              Some (take (nat (mp3_accumulator_fill x)) acc @ take m buf
                                    @ drop (nat (mp3_accumulator_fill x) + m) acc),
                            mp3_accumulator_fill := mp3_accumulator_fill x + int m\<rparr>))
            else mp3_accumulator_fill x' = 0)"
proof -
  from decode_step [OF assms] obtain x' where
    run: "decode_accumulated E x = Some x'" and ready: "decoder_ready x'"
    and acc': "mp3_accumulator x' = Some acc"
    and fill': "mp3_accumulator_fill x' = (if n = 0 then mp3_accumulator_fill x else 0)"
    by blast
  from assms(1,4) have lacc: "int (length acc) = DECODE_BUFFER_SIZE"
    and f0: "0 \<le> mp3_accumulator_fill x"
    by (auto elim!: decoder_readyE)
  have append: "accumulate_chunk x' buf (int m) =
        Some (x'\<lparr>mp3_accumulator :=
                   Some (take (nat (mp3_accumulator_fill x)) acc @ take m buf
                         @ drop (nat (mp3_accumulator_fill x) + m) acc),
                 mp3_accumulator_fill := mp3_accumulator_fill x + int m\<rparr>)"
    if "n = 0" "m \<le> length buf" "mp3_accumulator_fill x + int m < DECODE_BUFFER_SIZE"
    for buf m
  proof -
    have k: "mp3_accumulator_fill x' = int (nat (mp3_accumulator_fill x))"
      using fill' that(1) f0 by simp
    have "int (nat (mp3_accumulator_fill x)) + int m < DECODE_BUFFER_SIZE"
      using that(3) f0 by simp
    from accumulate_fits [OF acc' lacc k that(2) this] show ?thesis
      using f0 by simp
  qed
  show ?thesis
    using run ready acc' fill' append by auto
qed

theorem decode_result_handling_witness:
  "decoder_ready (with_accumulator [1, 1]) \<and> engine_ok accepting_env \<and>
   hip_decode accepting_env 0 [1, 1] = (2, [3, 4], [5, 6], 1) \<and>
   map_option mp3_accumulator_fill (decode_accumulated accepting_env (with_accumulator [1, 1])) = Some 0 \<and>
   hip_decode accepting_env 0 [1] = (0, [], [], 1) \<and>
   map_option mp3_accumulator_fill (decode_accumulated accepting_env (with_accumulator [1])) = Some 1 \<and>
   hip_decode accepting_env 0 [0, 1] = (- 1, [], [], 1) \<and>
   map_option mp3_accumulator_fill (decode_accumulated accepting_env (with_accumulator [0, 1])) = Some 0"
proof -
  have ok: "engine_ok accepting_env" by (simp add: accepting_env_def engine_ok_stub)
  have ready: "decoder_ready (with_accumulator bs)" if "length bs < 16384" for bs
    using that decoder_ready_stub [of "int (length bs)" 0 0 "bs @ replicate (16384 - length bs) 0"
        "replicate 4608 0" "replicate 4608 0"]
    by (simp add: with_accumulator_def ready_object_def stub_object_def)
  have h: "hip (with_accumulator bs) = Some 0" for bs
    by (simp add: with_accumulator_def ready_object_def)
  have acc: "mp3_accumulator (with_accumulator bs) = Some (bs @ replicate (16384 - length bs) 0)" for bs
    by (simp add: with_accumulator_def)
  have bytes: "take (nat (mp3_accumulator_fill (with_accumulator bs))) (bs @ replicate (16384 - length bs) 0) = bs" for bs
    by (simp add: with_accumulator_def)
  have d1: "hip_decode accepting_env 0 [1, 1] = (2, [3, 4], [5, 6], 1)"
    and d2: "hip_decode accepting_env 0 [1] = (0, [], [], 1)"
    and d3: "hip_decode accepting_env 0 [0, 1] = (- 1, [], [], 1)"
    by (simp_all add: accepting_env_def stub_env_def)
  have f: "mp3_accumulator_fill (with_accumulator [1]) = 1"
    by (simp add: with_accumulator_def)
  from decode_result_handling [OF ready ok h acc, of "[1, 1]" 2 "[3, 4]" "[5, 6]" 1]
  have r1: "map_option mp3_accumulator_fill (decode_accumulated accepting_env (with_accumulator [1, 1])) = Some 0"
    unfolding bytes using d1 by auto
  from decode_result_handling [OF ready ok h acc, of "[1]" 0 "[]" "[]" 1]
  have r2: "map_option mp3_accumulator_fill (decode_accumulated accepting_env (with_accumulator [1])) = Some 1"
    unfolding bytes using d2 f by auto
  from decode_result_handling [OF ready ok h acc, of "[0, 1]" "- 1" "[]" "[]" 1]
  have r3: "map_option mp3_accumulator_fill (decode_accumulated accepting_env (with_accumulator [0, 1])) = Some 0"
    unfolding bytes using d3 by auto
  show ?thesis using ready [of "[1, 1]"] ok d1 d2 d3 r1 r2 r3 by simp
qed

section \<open>A full byte accumulator\<close>

text \<open>
  Claim C8. When the bytes of an encoded frame would bring the accumulator fill to its
  capacity of 16384 or beyond, the append step leaves the object as it is (the whole chunk
  is dropped), the frame goes on with the decode attempt on the accumulator as it was, and
  the frame step returns to the loop with no error line written.
\<close>

theorem accumulator_overflow_drops_chunk:
  fixes x :: "('d, 'f, 'e, 'h) mp3codec"
  assumes "gfp x = Some g"
    and "encode_buffer_left x = Some bl" and "int (length bl) = PCM_BUFFER_SIZE"
    and "encode_buffer_right x = Some br" and "int (length br) = PCM_BUFFER_SIZE"
    and "decoder_ready x" and "engine_ok E"
    and "lame_encode_buffer E g (frame_pcm E bl) (frame_pcm E br) = (n, buf, g')"
    and "mp3_accumulator_fill x + n \<ge> DECODE_BUFFER_SIZE"
  shows "accumulate_chunk (x\<lparr>gfp := Some g', encode_buffer_fill := 0\<rparr>) buf n
           = Some (x\<lparr>gfp := Some g', encode_buffer_fill := 0\<rparr>) \<and>
         encode_frame E x = decode_accumulated E (x\<lparr>gfp := Some g', encode_buffer_fill := 0\<rparr>) \<and>
         (\<exists>x'. encode_frame E x = Some x' \<and> decoder_ready x' \<and>
               max_console x' = max_console x)"
proof -
  let ?y = "x\<lparr>gfp := Some g', encode_buffer_fill := 0\<rparr>"
  have drop: "accumulate_chunk ?y buf n = Some ?y"
    using assms(9) by (simp add: accumulate_overflow)
  from assms(6) have "mp3_accumulator_fill x < DECODE_BUFFER_SIZE"
    by (auto elim!: decoder_readyE)
  with assms(9) have pos: "n > 0" by simp
  have run: "encode_frame E x = decode_accumulated E ?y"
    using encode_frame_unfold [OF assms(1-5,7,8)] pos drop by simp
  from encode_step [OF assms(1-8)] obtain x' where
    "encode_frame E x = Some x'" "decoder_ready x'" "front_unchanged ?y x'" by blast
  then have "encode_frame E x = Some x' \<and> decoder_ready x' \<and> max_console x' = max_console x"
    by (simp add: front_unchanged_def)
  with drop run show ?thesis by blast
qed

theorem accumulator_overflow_drops_chunk_witness:
  "decoder_ready nearly_full_object \<and> engine_ok accepting_env \<and>
   lame_encode_buffer accepting_env (stub_settings, [])
       (frame_pcm accepting_env (replicate 4608 0)) (frame_pcm accepting_env (replicate 4608 0))
     = (1, [1], (stub_settings, [(replicate 1152 0, replicate 1152 0)])) \<and>
   mp3_accumulator_fill nearly_full_object + 1 \<ge> DECODE_BUFFER_SIZE \<and>
   encode_frame accepting_env nearly_full_object =
     decode_accumulated accepting_env
       (nearly_full_object\<lparr>gfp := Some (stub_settings, [(replicate 1152 0, replicate 1152 0)]),
                           encode_buffer_fill := 0\<rparr>)"
proof -
  have ok: "engine_ok accepting_env" by (simp add: accepting_env_def engine_ok_stub)
  have ready: "decoder_ready nearly_full_object"
    by (simp add: decoder_ready_def allocated_def nearly_full_object_def ready_object_def
        stub_object_def DECODE_BUFFER_SIZE_def PCM_BUFFER_SIZE_def MP3_FRAME_SIZE_def)
  have f: "frame_pcm accepting_env (replicate 4608 0) = replicate 1152 0"
    by (simp add: frame_pcm_def MP3_FRAME_SIZE_def float_to_short_def accepting_env_def
        stub_env_def)
  have call: "lame_encode_buffer accepting_env (stub_settings, [])
       (frame_pcm accepting_env (replicate 4608 0)) (frame_pcm accepting_env (replicate 4608 0))
     = (1, [1], (stub_settings, [(replicate 1152 0, replicate 1152 0)]))"
    unfolding f by (simp add: accepting_env_def stub_env_def)
  have over: "mp3_accumulator_fill nearly_full_object + 1 \<ge> DECODE_BUFFER_SIZE"
    by (simp add: nearly_full_object_def DECODE_BUFFER_SIZE_def)
  have g: "gfp nearly_full_object = Some (stub_settings, [])"
    and bl: "encode_buffer_left nearly_full_object = Some (replicate 4608 0)"
    and br: "encode_buffer_right nearly_full_object = Some (replicate 4608 0)"
    and len: "int (length (replicate 4608 (0::int))) = PCM_BUFFER_SIZE"
    by (simp_all add: nearly_full_object_def ready_object_def PCM_BUFFER_SIZE_def
        MP3_FRAME_SIZE_def)
  from accumulator_overflow_drops_chunk [OF g bl len br len ready ok call over]
  show ?thesis using ready ok call over by simp
qed

section \<open>The ring buffer\<close>

text \<open>
  Claim C4, as the code has it. With delay compensation disabled, when the read cursor
  stands at the write cursor, writing \<open>n\<close> decoded samples (at most the ring capacity) and
  then reading \<open>n\<close> samples gives exactly those samples, converted to float and scaled by
  the output gain, in the order written, also when the cursors wrap; the read cursor ends
  at the write cursor again.
\<close>

theorem ring_write_then_read:
  fixes x :: "('d, 'f, 'e, 'h) mp3codec"
  assumes "decode_delay_compensation x = 0"
    and "output_ring_left x = Some rl" and "output_ring_right x = Some rr"
    and "decode_pcm_left x = Some dl" and "decode_pcm_right x = Some dr"
    and "ring_size x = int sz" and "length rl = sz" and "length rr = sz"
    and "ring_write_pos x = int w" and "ring_read_pos x = int w" and "w < sz"
    and "n \<le> sz" and "n \<le> length dl" and "n \<le> length dr"
    and "n \<le> length o0" and "n \<le> length o1"
  shows "\<exists>x1 x2.
           for_loop 0 (int n) (ring_write_sample E) x = Some x1 \<and>
           for_loop 0 (int n) (ring_read_sample E) (x1, o0, o1) =
             Some (x2,
                   gain_out E (output_gain x) (map (short_to_float E) (take n dl)) @ drop n o0,
                   gain_out E (output_gain x) (map (short_to_float E) (take n dr)) @ drop n o1) \<and>
           ring_read_pos x2 = ring_write_pos x2"
proof -
  from ring_write_loop [OF assms(2-5) assms(6-8) assms(9,11) assms(13,14), of E]
  obtain rl' rr' where
    w: "for_loop 0 (int n) (ring_write_sample E) x =
             Some (x\<lparr>output_ring_left := Some rl', output_ring_right := Some rr',
                     ring_write_pos := int ((w + n) mod sz)\<rparr>)"
    and len: "length rl' = sz" "length rr' = sz"
    and c: "\<forall>k<n. rl' ! ((w + k) mod sz) = short_to_float E (dl ! k) \<and>
                   rr' ! ((w + k) mod sz) = short_to_float E (dr ! k)"
    using assms(12) by blast
  let ?x1 = "x\<lparr>output_ring_left := Some rl', output_ring_right := Some rr',
                     ring_write_pos := int ((w + n) mod sz)\<rparr>"
  have r: "for_loop 0 (int n) (ring_read_sample E) (?x1, o0, o1) =
           Some (?x1\<lparr>ring_read_pos := int ((w + n) mod sz)\<rparr>,
                 map (\<lambda>k. f_mul_d E (rl' ! ((w + k) mod sz)) (output_gain ?x1)) [0..<n] @ drop n o0,
                 map (\<lambda>k. f_mul_d E (rr' ! ((w + k) mod sz)) (output_gain ?x1)) [0..<n] @ drop n o1)"
    by (rule ring_read_loop [OF _ _ _ _ len _ assms(11) assms(15,16)])
       (simp_all add: assms)
  have l: "map (\<lambda>k. f_mul_d E (rl' ! ((w + k) mod sz)) (output_gain ?x1)) [0..<n]
           = gain_out E (output_gain x) (map (short_to_float E) (take n dl))"
    using c assms(13) by (intro nth_equalityI) (simp_all add: gain_out_def)
  have rt: "map (\<lambda>k. f_mul_d E (rr' ! ((w + k) mod sz)) (output_gain ?x1)) [0..<n]
           = gain_out E (output_gain x) (map (short_to_float E) (take n dr))"
    using c assms(14) by (intro nth_equalityI) (simp_all add: gain_out_def)
  show ?thesis
    using w r unfolding l rt by simp
qed

theorem ring_write_then_read_witness:
  "decode_delay_compensation wrapping_object = 0 \<and>
   ring_write_pos wrapping_object = 4607 \<and> ring_read_pos wrapping_object = 4607 \<and>
   (\<exists>x1 x2. for_loop 0 2 (ring_write_sample accepting_env) wrapping_object = Some x1 \<and>
       for_loop 0 2 (ring_read_sample accepting_env) (x1, [9, 9, 9], [9, 9, 9])
         = Some (x2, [3, 4, 9], [5, 6, 9]) \<and>
       ring_read_pos x2 = ring_write_pos x2)"
proof -
  have s: "decode_delay_compensation wrapping_object = 0"
    "output_ring_left wrapping_object = Some (replicate 4608 0)"
    "output_ring_right wrapping_object = Some (replicate 4608 0)"
    "decode_pcm_left wrapping_object = Some (3 # 4 # replicate 4606 0)"
    "decode_pcm_right wrapping_object = Some (5 # 6 # replicate 4606 0)"
    "ring_size wrapping_object = int 4608"
    "length (replicate 4608 (0::int)) = 4608"
    "length (replicate 4608 (0::int)) = 4608"
    "ring_write_pos wrapping_object = int 4607" "ring_read_pos wrapping_object = int 4607"
    by (simp_all add: wrapping_object_def decoded_object_def ready_object_def stub_object_def)
  have g: "gain_out accepting_env (output_gain wrapping_object) xs = xs"
    "short_to_float accepting_env v = v" for xs v
    by (simp_all add: gain_out_def short_to_float_def accepting_env_def stub_env_def
        wrapping_object_def decoded_object_def ready_object_def stub_object_def)
  from ring_write_then_read [OF s, of 2 "[9, 9, 9]" "[9, 9, 9]" accepting_env]
  show ?thesis using s(1,9,10) by (simp add: g)
qed

text \<open>
  The claim itself fails when samples are buffered between the cursors. Here the read
  cursor stands at 1152 and the write cursor at 0, as after a first block for which the
  decoder asked for more data. Writing the two decoded samples 3, 4 (left) and 5, 6
  (right) does not lap the read cursor, and the two samples read next are the zeros at
  1152 and 1153, not the samples written.
\<close>

theorem ring_write_then_read_counterexample:
  "for_loop 0 2 (ring_write_sample accepting_env) lagging_object =
     Some (lagging_object\<lparr>output_ring_left := Some ((replicate 4608 0)[0 := 3, 1 := 4]),
                          output_ring_right := Some ((replicate 4608 0)[0 := 5, 1 := 6]),
                          ring_write_pos := 2\<rparr>) \<and>
   for_loop 0 2 (ring_read_sample accepting_env)
       (lagging_object\<lparr>output_ring_left := Some ((replicate 4608 0)[0 := 3, 1 := 4]),
                        output_ring_right := Some ((replicate 4608 0)[0 := 5, 1 := 6]),
                        ring_write_pos := 2\<rparr>, [9, 9], [9, 9]) =
     Some (lagging_object\<lparr>output_ring_left := Some ((replicate 4608 0)[0 := 3, 1 := 4]),
                          output_ring_right := Some ((replicate 4608 0)[0 := 5, 1 := 6]),
                          ring_write_pos := 2, ring_read_pos := 1154\<rparr>, [0, 0], [0, 0])"
  by (simp add: for_loop.simps ring_write_sample_def ring_read_sample_def array_read_def
      array_write_def lagging_object_def decoded_object_def ready_object_def stub_object_def
      short_to_float_def accepting_env_def stub_env_def Let_def)

end
